theory Spec2Isabelle
  imports Complex_Main "HOL-Library.Word"
begin

unbundle bit_operations_syntax

section \<open>The DualPI2 queue discipline (dual-pi2-queue-disc.cc)\<close>

text \<open>
  Conventions of the embedding.
  \<^item> \<open>uint32_t\<close> values (packet sizes, byte counts, deficits, the loop counters of the
    scheduler) are \<open>32 word\<close>: addition, subtraction and multiplication wrap.
  \<^item> \<open>Time\<close> is the signed count of nanoseconds of ns-3 (its default resolution),
    taken as \<open>int\<close>; \<open>GetSeconds\<close> divides by \<open>10^9\<close>. The one product of the
    code in \<open>int64_t\<close> wraps at 64 bits (\<open>wrap_int64\<close>).
  \<^item> \<open>double\<close> values are idealised as \<open>real\<close>: rounding is not modelled. The one
    place where IEEE arithmetic differs from the total division of HOL, \<open>1 / (k * k)\<close> at
    \<open>k = 0\<close>, is written out (\<open>+inf\<close>, so that \<open>min\<close> with 1 gives 1).
  \<^item> \<open>Simulator::Now()\<close> and the stopped flag of the device transmit queue are inputs of
    the operations that read them.
  \<^item> \<open>NS_ASSERT_MSG\<close>, \<open>NS_ABORT_MSG_IF\<close>, \<open>NS_ABORT_MSG_UNLESS\<close> and
    \<open>NS_FATAL_ERROR\<close> end the program; an operation that can reach one returns
    \<open>error + result\<close>, with \<open>Inl\<close> for the abort.
\<close>

type_synonym u32 = "32 word"
type_synonym Time = int

definition GetSeconds :: "Time \<Rightarrow> real" where
  "GetSeconds t = real_of_int t / 1000000000"

datatype error = AssertFailed | AbortMsg | FatalError

datatype drop_reason = FORCED_DROP | UNFORCED_CLASSIC_DROP | UNFORCED_L4S_DROP

text \<open>The value returned by \<open>Scheduler\<close>: the index of an internal queue, or \<open>NONE\<close>.\<close>

datatype band = CLASSIC | L4S | NONE

subsection \<open>Packets and internal queues\<close>

text \<open>
  A queue disc item as far as the discipline reads it: its size, its enqueue time stamp
  and the DS field that \<open>GetUint8Value (IP_DSFIELD, tosByte)\<close> reads, \<open>None\<close> when
  that call returns false (an item without an IP header).
\<close>

record QueueDiscItem =
  GetSize :: u32
  GetTimeStamp :: Time
  IP_DSFIELD :: "8 word option"

text \<open>
  Modelled from the spec: the item's \<open>Mark ()\<close> (the item classes are not among the
  sources): it sets the ECN bits to CE and returns true on success; it fails for Not-ECT
  packets, and for an item without a DS field.
\<close>

definition Mark_item :: "QueueDiscItem \<Rightarrow> bool \<times> QueueDiscItem" where
  "Mark_item p =
     (case IP_DSFIELD p of
        None \<Rightarrow> (False, p)
      | Some tos \<Rightarrow>
          if tos AND 3 = 0 then (False, p)
          else (True, p\<lparr>IP_DSFIELD := Some (tos OR 3)\<rparr>))"

text \<open>
  Modelled from the spec: the two internal queues (the queue classes are not among the
  sources) are FIFOs bounded only by the shared byte limit that \<open>DoEnqueue\<close> checks: a
  list of items, \<open>Enqueue\<close> appending at the back and always succeeding, \<open>Dequeue\<close>
  and \<open>Peek\<close> reading the front. \<open>GetNBytes\<close> and \<open>GetNPackets\<close> are 32-bit counters.
\<close>

definition GetNBytes :: "QueueDiscItem list \<Rightarrow> u32" where
  "GetNBytes q = sum_list (map GetSize q)"

definition GetNPackets :: "QueueDiscItem list \<Rightarrow> u32" where
  "GetNPackets q = of_nat (length q)"

definition Peek :: "QueueDiscItem list \<Rightarrow> QueueDiscItem option" where
  "Peek q = (case q of [] \<Rightarrow> None | p # _ \<Rightarrow> Some p)"

subsection \<open>Attributes and members\<close>

record Attributes =
  m_alpha :: real
  m_beta :: real
  m_queueLimit :: u32
  m_target :: Time
  m_minTh :: Time
  m_range :: Time
  m_k :: real
  m_schedulingWeight :: real
  m_drrQuantum :: u32
  m_disableLaqm :: bool
  m_enableWifiClassicLatencyEstimator :: bool
  m_aggBufferLimit :: u32

text \<open>
  The members of the discipline. \<open>classicQueue\<close> and \<open>l4sQueue\<close> are
  \<open>GetInternalQueue (CLASSIC)\<close> and \<open>GetInternalQueue (L4S)\<close>; the two bits of
  \<open>m_drrQueues\<close> are two fields; \<open>drops\<close> records the calls of \<open>DropBeforeEnqueue\<close>
  and \<open>DropAfterDequeue\<close> in order. The class declaration is not among the sources:
  the types are those that the attribute accessors and the uses in the code give
  (\<open>uint32_t\<close> for sizes, byte samples and the two deficits, \<open>double\<close> for
  probabilities and the \<open>Recur\<close> counters, \<open>Time\<close> for delays).
\<close>

record DualPi2QueueDisc =
  classicQueue :: "QueueDiscItem list"
  l4sQueue :: "QueueDiscItem list"
  m_classicStagingQueue :: "QueueDiscItem list"
  m_l4sStagingQueue :: "QueueDiscItem list"
  m_mtu :: u32
  m_thLen :: u32
  m_baseProb :: real
  m_pCL :: real
  m_pC :: real
  m_pL :: real
  m_pCmax :: real
  m_pLmax :: real
  m_prevQ :: Time
  m_classicDeficit :: u32
  m_llDeficit :: u32
  m_drrQueues_CLASSIC :: bool
  m_drrQueues_L4S :: bool
  m_classicCount :: real
  m_l4sCount :: real
  m_cLatencySample :: Time
  m_lLatencySample :: Time
  m_cBytesSample :: u32
  drops :: "(QueueDiscItem \<times> drop_reason) list"

definition GetQueueSize :: "DualPi2QueueDisc \<Rightarrow> u32" where
  "GetQueueSize s = GetNBytes (classicQueue s) + GetNBytes (l4sQueue s)"

text \<open>
  Modelled from the spec: the packet and byte counts of the whole discipline (kept by the
  base class, not among the sources) are those of the two internal queues:
  \<open>bytes(Q_C)+bytes(Q_L)\<close> and \<open>count(Q_C)+count(Q_L)\<close>.
\<close>

definition GetNBytes_disc :: "DualPi2QueueDisc \<Rightarrow> u32" where
  "GetNBytes_disc s = GetNBytes (classicQueue s) + GetNBytes (l4sQueue s)"

definition GetNPackets_disc :: "DualPi2QueueDisc \<Rightarrow> u32" where
  "GetNPackets_disc s = GetNPackets (classicQueue s) + GetNPackets (l4sQueue s)"

definition Drop :: "QueueDiscItem \<Rightarrow> drop_reason \<Rightarrow> DualPi2QueueDisc \<Rightarrow> DualPi2QueueDisc" where
  "Drop item r s = s\<lparr>drops := drops s @ [(item, r)]\<rparr>"

definition Dequeue_CLASSIC :: "DualPi2QueueDisc \<Rightarrow> QueueDiscItem option \<times> DualPi2QueueDisc" where
  "Dequeue_CLASSIC s =
     (case classicQueue s of [] \<Rightarrow> (None, s) | p # q \<Rightarrow> (Some p, s\<lparr>classicQueue := q\<rparr>))"

definition Dequeue_L4S :: "DualPi2QueueDisc \<Rightarrow> QueueDiscItem option \<times> DualPi2QueueDisc" where
  "Dequeue_L4S s =
     (case l4sQueue s of [] \<Rightarrow> (None, s) | p # q \<Rightarrow> (Some p, s\<lparr>l4sQueue := q\<rparr>))"

subsection \<open>Classification and enqueue\<close>

definition IsL4s :: "QueueDiscItem \<Rightarrow> bool" where
  "IsL4s item =
     (case IP_DSFIELD item of
        Some tosByte \<Rightarrow> tosByte AND 3 = 1 \<or> tosByte AND 3 = 3
      | None \<Rightarrow> False)"

definition DoEnqueue :: "Attributes \<Rightarrow> QueueDiscItem \<Rightarrow> DualPi2QueueDisc \<Rightarrow> bool \<times> DualPi2QueueDisc" where
  "DoEnqueue a item s =
     (let nQueued = GetQueueSize s in
      if nQueued + GetSize item > m_queueLimit a
      then (False, Drop item FORCED_DROP s)
      else if IsL4s item
        then (True, s\<lparr>l4sQueue := l4sQueue s @ [item]\<rparr>)
        else (True, s\<lparr>classicQueue := classicQueue s @ [item]\<rparr>))"

subsection \<open>The \<open>Recur\<close> primitive and LAQM\<close>

text \<open>\<open>Recur\<close> updates the counter passed by reference: the result carries its new value.\<close>

definition Recur :: "real \<Rightarrow> real \<Rightarrow> bool \<times> real" where
  "Recur count likelihood =
     (let count1 = count + likelihood in
      if count1 > 1 then (True, count1 - 1) else (False, count1))"

definition Laqm :: "Attributes \<Rightarrow> Time \<Rightarrow> real" where
  "Laqm a qDelay =
     (if m_disableLaqm a then 0
      else if qDelay \<ge> m_minTh a + m_range a then 1
      else if qDelay > m_minTh a
        then GetSeconds (qDelay - m_minTh a) / GetSeconds (m_range a)
      else 0)"

subsection \<open>Initialisation and the PI2 update\<close>

text \<open>
  Modelled from the spec: the member initialisers of the class declaration (the header is
  not among the sources): a constructed discipline has empty queues, \<open>base_prob\<close>, both
  \<open>Recur\<close> counters and both deficits at 0 and an empty round mask. The argument is the
  \<open>Mtu\<close> attribute.
\<close>

definition constructed :: "u32 \<Rightarrow> DualPi2QueueDisc" where
  "constructed mtu =
     \<lparr>classicQueue = [], l4sQueue = [], m_classicStagingQueue = [], m_l4sStagingQueue = [],
      m_mtu = mtu, m_thLen = 0, m_baseProb = 0, m_pCL = 0, m_pC = 0, m_pL = 0,
      m_pCmax = 0, m_pLmax = 0, m_prevQ = 0, m_classicDeficit = 0, m_llDeficit = 0,
      m_drrQueues_CLASSIC = False, m_drrQueues_L4S = False,
      m_classicCount = 0, m_l4sCount = 0,
      m_cLatencySample = 0, m_lLatencySample = 0, m_cBytesSample = 0, drops = []\<rparr>"

text \<open>
  \<open>devMtu\<close> is the MTU of the device the queue interface is aggregated to, if any.
  \<open>1 / (m_k * m_k)\<close> is \<open>+inf\<close> in IEEE arithmetic when the product is 0, and
  \<open>std::min\<close> of it and 1 is 1.
\<close>

definition InitializeParams :: "Attributes \<Rightarrow> u32 option \<Rightarrow> DualPi2QueueDisc \<Rightarrow> error + DualPi2QueueDisc" where
  "InitializeParams a devMtu s =
     (let s1 = (if m_mtu s = 0
                then (case devMtu of Some m \<Rightarrow> s\<lparr>m_mtu := m\<rparr> | None \<Rightarrow> s)
                else s)
      in if m_mtu s1 < 68 then Inl AbortMsg
         else Inr (s1\<lparr>m_thLen := 1, m_prevQ := 0, m_pCL := 0, m_pC := 0, m_pL := 0,
                     m_pCmax := (if m_k a * m_k a = 0 then 1 else min (1 / (m_k a * m_k a)) 1),
                     m_pLmax := 1\<rparr>))"

text \<open>Integer division of C++, which truncates towards zero.\<close>

definition tdiv :: "int \<Rightarrow> int \<Rightarrow> int" where
  "tdiv x y = sgn x * sgn y * (\<bar>x\<bar> div \<bar>y\<bar>)"

text \<open>
  A result of \<open>int64_t\<close> arithmetic: a value beyond the 64-bit range, undefined in C++,
  wraps in two's complement as the compiled code does.
\<close>

definition wrap_int64 :: "int \<Rightarrow> int" where
  "wrap_int64 x = (x + 2 ^ 63) mod 2 ^ 64 - 2 ^ 63"

text \<open>
  The queueing delay that the update works on: \<open>cQ\<close>, \<open>lQ\<close> and their maximum. The
  product \<open>m_cBytesSample * m_target.GetNanoSeconds ()\<close> is computed in \<open>int64_t\<close>.
\<close>

definition classic_delay :: "Attributes \<Rightarrow> Time \<Rightarrow> DualPi2QueueDisc \<Rightarrow> Time" where
  "classic_delay a now s =
     (if m_enableWifiClassicLatencyEstimator a
      then (let l1 = max (m_cLatencySample s) (m_lLatencySample s);
                l2 = tdiv (wrap_int64 (uint (m_cBytesSample s) * m_target a))
                       (uint (m_aggBufferLimit a))
            in min l1 l2)
      else (case Peek (classicQueue s) of
              Some item \<Rightarrow> now - GetTimeStamp item
            | None \<Rightarrow> 0))"

definition l4s_delay :: "Time \<Rightarrow> DualPi2QueueDisc \<Rightarrow> Time" where
  "l4s_delay now s =
     (case Peek (l4sQueue s) of
        Some item \<Rightarrow> now - GetTimeStamp item
      | None \<Rightarrow> 0)"

definition DualPi2Update :: "Attributes \<Rightarrow> Time \<Rightarrow> DualPi2QueueDisc \<Rightarrow> error + DualPi2QueueDisc" where
  "DualPi2Update a now s =
     (if m_enableWifiClassicLatencyEstimator a \<and> m_aggBufferLimit a = 0 then Inl AbortMsg
      else
        (let cQ = classic_delay a now s;
             lQ = l4s_delay now s;
             curQ = max cQ lQ;
             baseProb1 = m_baseProb s + m_alpha a * GetSeconds (curQ - m_target a)
                           + m_beta a * GetSeconds (curQ - m_prevQ s);
             baseProb2 = max baseProb1 0;
             baseProb3 = min baseProb2 1;
             pCL = min (baseProb3 * m_k a) 1
         in Inr (s\<lparr>m_baseProb := baseProb3, m_pCL := pCL,
                   m_pC := baseProb3 * baseProb3, m_prevQ := curQ\<rparr>)))"

subsection \<open>Staging queues\<close>

definition AddToL4sStagingQueue :: "QueueDiscItem \<Rightarrow> DualPi2QueueDisc \<Rightarrow> DualPi2QueueDisc" where
  "AddToL4sStagingQueue qdItem s = s\<lparr>m_l4sStagingQueue := m_l4sStagingQueue s @ [qdItem]\<rparr>"

definition AddToClassicStagingQueue :: "QueueDiscItem \<Rightarrow> DualPi2QueueDisc \<Rightarrow> DualPi2QueueDisc" where
  "AddToClassicStagingQueue qdItem s =
     s\<lparr>m_classicStagingQueue := m_classicStagingQueue s @ [qdItem]\<rparr>"

definition DequeueFromL4sStagingQueue :: "DualPi2QueueDisc \<Rightarrow> QueueDiscItem option \<times> DualPi2QueueDisc" where
  "DequeueFromL4sStagingQueue s =
     (case m_l4sStagingQueue s of
        [] \<Rightarrow> (None, s)
      | p # q \<Rightarrow> (Some p, s\<lparr>m_l4sStagingQueue := q\<rparr>))"

definition DequeueFromClassicStagingQueue :: "DualPi2QueueDisc \<Rightarrow> QueueDiscItem option \<times> DualPi2QueueDisc" where
  "DequeueFromClassicStagingQueue s =
     (case m_classicStagingQueue s of
        [] \<Rightarrow> (None, s)
      | p # q \<Rightarrow> (Some p, s\<lparr>m_classicStagingQueue := q\<rparr>))"

subsection \<open>The scheduler\<close>

definition CanSchedule :: "u32 \<Rightarrow> DualPi2QueueDisc \<Rightarrow> bool \<times> bool" where
  "CanSchedule byteLimit s =
     (if GetNPackets_disc s = 0 then (False, False)
      else
        (let l4sHolWifiSize = (case Peek (l4sQueue s) of Some p \<Rightarrow> GetSize p + 38 | None \<Rightarrow> 0);
             classicHolWifiSize =
               (case Peek (classicQueue s) of Some p \<Rightarrow> GetSize p + 38 | None \<Rightarrow> 0);
             canScheduleL4s = (l4sHolWifiSize \<noteq> 0 \<and> l4sHolWifiSize \<le> byteLimit);
             canScheduleClassic = (classicHolWifiSize \<noteq> 0 \<and> classicHolWifiSize \<le> byteLimit)
         in (canScheduleClassic, canScheduleL4s)))"

text \<open>
  \<open>m_llDeficit += m_drrQuantum * m_schedulingWeight\<close> adds in \<open>double\<close> and converts the
  sum back to \<open>uint32_t\<close>, truncating. The sum is not negative (the weight is at least 1);
  a sum beyond the 32-bit range, undefined in C++, is taken to wrap.
\<close>

definition add_double :: "u32 \<Rightarrow> real \<Rightarrow> u32" where
  "add_double d x = word_of_int \<lfloor>real (unat d) + x\<rfloor>"

text \<open>
  One pass through the body of the scheduler's \<open>for\<close> loop: \<open>Some\<close> band when the body
  returns, \<open>None\<close> when it runs to its end.
\<close>

definition SchedulerBody ::
  "Attributes \<Rightarrow> bool \<times> bool \<Rightarrow> u32 \<Rightarrow> u32 \<Rightarrow> DualPi2QueueDisc \<Rightarrow> band option \<times> DualPi2QueueDisc" where
  "SchedulerBody a eligible l4sHolSize classicHolSize s =
     (let s1 = (if \<not> m_drrQueues_L4S s \<and> \<not> m_drrQueues_CLASSIC s
                then s\<lparr>m_drrQueues_L4S := True, m_drrQueues_CLASSIC := True,
                       m_llDeficit := add_double (m_llDeficit s)
                                        (real (unat (m_drrQuantum a)) * m_schedulingWeight a),
                       m_classicDeficit := m_classicDeficit s + m_drrQuantum a\<rparr>
                else s)
      in if l4sHolSize \<noteq> 0 \<and> snd eligible \<and> l4sHolSize \<le> m_llDeficit s1
         then (Some L4S, s1\<lparr>m_llDeficit := m_llDeficit s1 - l4sHolSize\<rparr>)
         else
           (let s2 = (if l4sHolSize \<noteq> 0 \<and> snd eligible
                      then s1\<lparr>m_drrQueues_L4S := False\<rparr> else s1);
                s3 = (if l4sHolSize = 0
                      then s2\<lparr>m_llDeficit := 0, m_drrQueues_L4S := False\<rparr> else s2)
            in if classicHolSize \<noteq> 0 \<and> fst eligible \<and> classicHolSize \<le> m_classicDeficit s3
               then (Some CLASSIC, s3\<lparr>m_classicDeficit := m_classicDeficit s3 - classicHolSize\<rparr>)
               else
                 (let s4 = (if classicHolSize \<noteq> 0 \<and> fst eligible
                            then s3\<lparr>m_drrQueues_CLASSIC := False\<rparr> else s3);
                      s5 = (if classicHolSize = 0
                            then s4\<lparr>m_classicDeficit := 0, m_drrQueues_CLASSIC := False\<rparr>
                            else s4)
                  in (None, s5))))"

text \<open>
  The \<open>for\<close> loop itself, with its two 32-bit variables: \<open>i\<close> and \<open>maxIterations\<close>,
  which the body increments as well. Leaving the loop reaches \<open>NS_FATAL_ERROR\<close>.
\<close>

function SchedulerLoop ::
  "Attributes \<Rightarrow> bool \<times> bool \<Rightarrow> u32 \<Rightarrow> u32 \<Rightarrow> u32 \<Rightarrow> u32 \<Rightarrow> DualPi2QueueDisc
     \<Rightarrow> error + (band \<times> DualPi2QueueDisc)" where
  "SchedulerLoop a eligible l4sHolSize classicHolSize i maxIterations s =
     (if i < maxIterations
      then (case SchedulerBody a eligible l4sHolSize classicHolSize s of
              (Some b, s') \<Rightarrow> Inr (b, s')
            | (None, s') \<Rightarrow>
                SchedulerLoop a eligible l4sHolSize classicHolSize (i + 1) (maxIterations + 1) s')
      else Inl FatalError)"
  by pat_completeness auto
termination
proof (relation "measure (\<lambda>(a, eligible, l, c, i, maxIterations, s). unat (- maxIterations))")
  show "wf (measure (\<lambda>(a, eligible, l, c, i, maxIterations, s). unat (- maxIterations)))"
    by simp
next
  fix a :: Attributes and eligible :: "bool \<times> bool" and l4sHolSize classicHolSize i maxIterations :: u32
    and s :: DualPi2QueueDisc and x x1 s'
  assume lt: "i < maxIterations"
  then have "maxIterations \<noteq> 0"
    by (auto simp: word_less_nat_alt)
  then have nz: "- maxIterations \<noteq> 0"
    by simp
  have "- (maxIterations + 1) = - maxIterations - 1"
    by simp
  then have "unat (- (maxIterations + 1)) < unat (- maxIterations)"
    using measure_unat [OF nz] by simp
  then show "((a, eligible, l4sHolSize, classicHolSize, i + 1, maxIterations + 1, s'),
              (a, eligible, l4sHolSize, classicHolSize, i, maxIterations, s))
             \<in> measure (\<lambda>(a, eligible, l, c, i, maxIterations, s). unat (- maxIterations))"
    by simp
qed

definition Scheduler :: "Attributes \<Rightarrow> bool \<times> bool \<Rightarrow> DualPi2QueueDisc \<Rightarrow> error + (band \<times> DualPi2QueueDisc)" where
  "Scheduler a eligible s =
     (if \<not> (fst eligible \<or> snd eligible) then Inl AssertFailed
      else
        (let l4sHolSize = (case Peek (l4sQueue s) of Some p \<Rightarrow> GetSize p | None \<Rightarrow> 0);
             classicHolSize = (case Peek (classicQueue s) of Some p \<Rightarrow> GetSize p | None \<Rightarrow> 0)
         in if GetNPackets_disc s = 0 then Inr (NONE, s)
            else SchedulerLoop a eligible l4sHolSize classicHolSize 0 1000 s))"

subsection \<open>The dequeues with AQM\<close>

text \<open>
  \<open>QueueDisc::Mark\<close> marks the item (the statistics it also counts are left out).
  The \<open>while (qdItem)\<close> loop of \<open>DequeueFromL4sQueue\<close>: the result is the item returned,
  the value of the reference argument \<open>marked\<close> (false at the call) and the new state.
\<close>

function L4sWhile ::
  "Attributes \<Rightarrow> Time \<Rightarrow> QueueDiscItem option \<Rightarrow> DualPi2QueueDisc
     \<Rightarrow> error + (QueueDiscItem option \<times> bool \<times> DualPi2QueueDisc)" where
  "L4sWhile a now qdItem s =
     (case qdItem of
        None \<Rightarrow> Inr (None, False, s)
      | Some p \<Rightarrow>
          if m_pCL s < m_pLmax s
          then
            (let pPrimeL = (if GetNPackets (l4sQueue s) > m_thLen s
                            then Laqm a (now - GetTimeStamp p) else 0);
                 pL = min (max pPrimeL (m_pCL s)) 1;
                 rc = Recur (m_l4sCount s) pL;
                 s1 = s\<lparr>m_pL := pL, m_l4sCount := snd rc\<rparr>
             in if fst rc
                then (if fst (Mark_item p) then Inr (Some (snd (Mark_item p)), True, s1)
                      else Inl AssertFailed)
                else Inr (Some p, False, s1))
          else
            (let rc1 = Recur (m_l4sCount s) (m_pC s);
                 s1 = s\<lparr>m_l4sCount := snd rc1\<rparr>
             in if fst rc1
                then (let s2 = Drop p UNFORCED_L4S_DROP s1
                      in L4sWhile a now (fst (Dequeue_L4S s2)) (snd (Dequeue_L4S s2)))
                else
                  (let rc2 = Recur (m_l4sCount s1) (m_pCL s1);
                       s3 = s1\<lparr>m_l4sCount := snd rc2\<rparr>
                   in if fst rc2
                      then (if fst (Mark_item p) then Inr (Some (snd (Mark_item p)), True, s3)
                            else Inl AssertFailed)
                      else Inr (Some p, False, s3))))"
  by pat_completeness auto
termination
  by (relation "measure (\<lambda>(a, now, qdItem, s).
         length (l4sQueue s) + (case qdItem of None \<Rightarrow> 0 | Some _ \<Rightarrow> 1))")
     (auto simp: Dequeue_L4S_def Drop_def split: list.splits)

definition DequeueFromL4sQueue ::
  "Attributes \<Rightarrow> Time \<Rightarrow> DualPi2QueueDisc \<Rightarrow> error + (QueueDiscItem option \<times> bool \<times> DualPi2QueueDisc)" where
  "DequeueFromL4sQueue a now s =
     L4sWhile a now (fst (Dequeue_L4S s)) (snd (Dequeue_L4S s))"

text \<open>
  The \<open>while (qdItem)\<close> loop of \<open>DequeueFromClassicQueue\<close>; the Boolean is the reference
  argument \<open>dropped\<close>. \<open>Recur\<close> is the left operand of \<open>||\<close> and is always evaluated.
\<close>

function ClassicWhile ::
  "QueueDiscItem option \<Rightarrow> bool \<Rightarrow> DualPi2QueueDisc
     \<Rightarrow> QueueDiscItem option \<times> bool \<times> DualPi2QueueDisc" where
  "ClassicWhile qdItem dropped s =
     (case qdItem of
        None \<Rightarrow> (None, dropped, s)
      | Some p \<Rightarrow>
          (let rc = Recur (m_classicCount s) (m_pC s);
               s1 = s\<lparr>m_classicCount := snd rc\<rparr>
           in if fst rc \<or> m_pC s1 \<ge> m_pCmax s1
              then (let s2 = Drop p UNFORCED_CLASSIC_DROP s1
                    in ClassicWhile (fst (Dequeue_CLASSIC s2)) True (snd (Dequeue_CLASSIC s2)))
              else (Some p, dropped, s1)))"
  by pat_completeness auto
termination
  by (relation "measure (\<lambda>(qdItem, dropped, s).
         length (classicQueue s) + (case qdItem of None \<Rightarrow> 0 | Some _ \<Rightarrow> 1))")
     (auto simp: Dequeue_CLASSIC_def Drop_def split: list.splits)

definition DequeueFromClassicQueue ::
  "DualPi2QueueDisc \<Rightarrow> QueueDiscItem option \<times> bool \<times> DualPi2QueueDisc" where
  "DequeueFromClassicQueue s =
     (let qdItem = fst (Dequeue_CLASSIC s);
          s1 = snd (Dequeue_CLASSIC s)
      in if GetNBytes (classicQueue s1) < 2 * m_mtu s1 then (qdItem, False, s1)
         else ClassicWhile qdItem False s1)"

subsection \<open>Ordinary dequeue\<close>

text \<open>The \<open>while (GetQueueSize () > 0)\<close> loop of \<open>DoDequeue\<close> (the sojourn traces are left out).\<close>

function DoDequeueWhile ::
  "Attributes \<Rightarrow> Time \<Rightarrow> DualPi2QueueDisc \<Rightarrow> error + (QueueDiscItem option \<times> DualPi2QueueDisc)" where
  "DoDequeueWhile a now s =
     (if GetQueueSize s > 0
      then (case Scheduler a (True, True) s of
              Inl e \<Rightarrow> Inl e
            | Inr (selected, s1) \<Rightarrow>
                (case selected of
                   L4S \<Rightarrow>
                     (case DequeueFromL4sQueue a now s1 of
                        Inl e \<Rightarrow> Inl e
                      | Inr (Some qdItem, marked, s2) \<Rightarrow> Inr (Some qdItem, s2)
                      | Inr (None, marked, s2) \<Rightarrow> DoDequeueWhile a now s2)
                 | CLASSIC \<Rightarrow>
                     (case DequeueFromClassicQueue s1 of
                        (Some qdItem, dropped, s2) \<Rightarrow> Inr (Some qdItem, s2)
                      | (None, dropped, s2) \<Rightarrow> DoDequeueWhile a now s2)
                 | NONE \<Rightarrow> Inr (None, s1)))
      else Inr (None, s))"
  by pat_completeness auto

definition DoDequeue ::
  "Attributes \<Rightarrow> Time \<Rightarrow> DualPi2QueueDisc \<Rightarrow> error + (QueueDiscItem option \<times> DualPi2QueueDisc)" where
  "DoDequeue a now s =
     (case DequeueFromL4sStagingQueue s of
        (Some qdItem, s1) \<Rightarrow> Inr (Some qdItem, s1)
      | (None, s1) \<Rightarrow>
          (case DequeueFromClassicStagingQueue s1 of
             (Some qdItem, s2) \<Rightarrow> Inr (Some qdItem, s2)
           | (None, s2) \<Rightarrow> DoDequeueWhile a now s2))"

subsection \<open>The pending-dequeue callback\<close>

text \<open>
  The batch loop \<open>for (i = 0; i <= maxIterations; i++)\<close> with \<open>maxIterations = 1000\<close>;
  its counter never exceeds 1000 and is a \<open>nat\<close>. The result is \<open>markedCount\<close> and the
  state at the end of the loop.
\<close>

function PendingLoop ::
  "Attributes \<Rightarrow> Time \<Rightarrow> nat \<Rightarrow> u32 \<Rightarrow> u32 \<Rightarrow> DualPi2QueueDisc \<Rightarrow> error + (u32 \<times> DualPi2QueueDisc)" where
  "PendingLoop a now i pendingBytesLeft markedCount s =
     (if i \<le> 1000
      then
        (if \<not> i < 1000 then Inl AssertFailed
         else
           (let eligible = CanSchedule pendingBytesLeft s
            in if \<not> fst eligible \<and> \<not> snd eligible then Inr (markedCount, s)
               else
                 (case Scheduler a eligible s of
                    Inl e \<Rightarrow> Inl e
                  | Inr (scheduled, s1) \<Rightarrow>
                      (case scheduled of
                         L4S \<Rightarrow>
                           (case DequeueFromL4sQueue a now s1 of
                              Inl e \<Rightarrow> Inl e
                            | Inr (None, marked, s2) \<Rightarrow>
                                PendingLoop a now (i + 1) pendingBytesLeft markedCount s2
                            | Inr (Some qdItem, marked, s2) \<Rightarrow>
                                if \<not> GetSize qdItem + 38 \<le> pendingBytesLeft then Inl AssertFailed
                                else PendingLoop a now (i + 1)
                                       (pendingBytesLeft - (GetSize qdItem + 38))
                                       (if marked then markedCount + 1 else markedCount)
                                       (AddToL4sStagingQueue qdItem s2))
                       | CLASSIC \<Rightarrow>
                           (case DequeueFromClassicQueue s1 of
                              (None, dropped, s2) \<Rightarrow>
                                PendingLoop a now (i + 1) pendingBytesLeft markedCount s2
                            | (Some qdItem, dropped, s2) \<Rightarrow>
                                if \<not> GetSize qdItem + 38 \<le> pendingBytesLeft then Inl AssertFailed
                                else PendingLoop a now (i + 1)
                                       (pendingBytesLeft - (GetSize qdItem + 38))
                                       markedCount
                                       (AddToClassicStagingQueue qdItem s2))
                       | NONE \<Rightarrow> Inr (markedCount, s1)))))
      else Inr (markedCount, s))"
  by pat_completeness auto
termination
  by (relation "measure (\<lambda>(a, now, i, pendingBytesLeft, markedCount, s). 1001 - i)") auto

text \<open>
  The walk over the L4S staging queue, \<open>while (it != end && pendingMarks)\<close>: an item whose
  DS field reads with ECN bits 01 is marked and counted.
\<close>

fun MarkWalk :: "u32 \<Rightarrow> QueueDiscItem list \<Rightarrow> QueueDiscItem list" where
  "MarkWalk pendingMarks [] = []"
| "MarkWalk pendingMarks (p # ps) =
     (if pendingMarks = 0 then p # ps
      else if (case IP_DSFIELD p of Some tosByte \<Rightarrow> tosByte AND 3 = 1 | None \<Rightarrow> False)
        then snd (Mark_item p) # MarkWalk (pendingMarks - 1) ps
        else p # MarkWalk pendingMarks ps)"

text \<open>The end of the callback, from the assertion on \<open>markedCount\<close> on.\<close>

definition PendingMarks :: "u32 \<Rightarrow> DualPi2QueueDisc \<Rightarrow> error + DualPi2QueueDisc" where
  "PendingMarks markedCount s =
     (if markedCount \<noteq> 0 \<and> \<not> m_pCL s > 0 then Inl AssertFailed
      else if GetNPackets (l4sQueue s) > markedCount
        then (let pendingMarks = GetNPackets (l4sQueue s) - markedCount
              in Inr (s\<lparr>m_l4sStagingQueue := MarkWalk pendingMarks (m_l4sStagingQueue s)\<rparr>))
        else Inr s)"

text \<open>
  The first statements of the callback: the samples for the alternative Classic latency
  estimator.
\<close>

definition RefreshSamples :: "Time \<Rightarrow> DualPi2QueueDisc \<Rightarrow> DualPi2QueueDisc" where
  "RefreshSamples now s =
     s\<lparr>m_cLatencySample :=
         (case Peek (classicQueue s) of Some item \<Rightarrow> now - GetTimeStamp item | None \<Rightarrow> 0),
       m_lLatencySample :=
         (case Peek (l4sQueue s) of Some item \<Rightarrow> now - GetTimeStamp item | None \<Rightarrow> 0),
       m_cBytesSample := GetNBytes (classicQueue s)\<rparr>"

text \<open>
  \<open>stopped\<close> tells whether the queue interface exists and its transmit queue 0 is stopped.
\<close>

definition PendingDequeueCallback ::
  "Attributes \<Rightarrow> Time \<Rightarrow> bool \<Rightarrow> u32 \<Rightarrow> DualPi2QueueDisc \<Rightarrow> error + DualPi2QueueDisc" where
  "PendingDequeueCallback a now stopped pendingBytes s =
     (let s1 = RefreshSamples now s
      in if \<not> stopped then Inr s1
         else
           (let queueDiscPending = GetNBytes_disc s1 + 38 * GetNPackets_disc s1
            in if pendingBytes > queueDiscPending then Inr s1
               else
                 (case PendingLoop a now 0 pendingBytes 0 s1 of
                    Inl e \<Rightarrow> Inl e
                  | Inr (markedCount, s2) \<Rightarrow> PendingMarks markedCount s2)))"

subsection \<open>Reachable states\<close>

text \<open>
  The states of a discipline: initialised after its construction, then driven by the
  enqueues, dequeues, pending-dequeue callbacks and timer updates that do not abort.
\<close>

inductive reachable :: "Attributes \<Rightarrow> DualPi2QueueDisc \<Rightarrow> bool" for a :: Attributes where
  reach_init: "InitializeParams a devMtu (constructed mtu) = Inr s \<Longrightarrow> reachable a s"
| reach_enqueue: "reachable a s \<Longrightarrow> DoEnqueue a item s = (ok, s') \<Longrightarrow> reachable a s'"
| reach_dequeue: "reachable a s \<Longrightarrow> DoDequeue a now s = Inr (r, s') \<Longrightarrow> reachable a s'"
| reach_pending:
    "reachable a s \<Longrightarrow> PendingDequeueCallback a now stopped pendingBytes s = Inr s'
       \<Longrightarrow> reachable a s'"
| reach_update: "reachable a s \<Longrightarrow> DualPi2Update a now s = Inr s' \<Longrightarrow> reachable a s'"

subsection \<open>Default attributes and sample inputs\<close>

text \<open>The defaults of \<open>GetTypeId\<close>; the aggregation buffer limit is unset (0).\<close>

definition defaults :: Attributes where
  "defaults =
     \<lparr>m_alpha = 15 / 100, m_beta = 3, m_queueLimit = 1562500, m_target = 15000000,
      m_minTh = 800000, m_range = 400000, m_k = 2, m_schedulingWeight = 9, m_drrQuantum = 1500,
      m_disableLaqm = False, m_enableWifiClassicLatencyEstimator = False, m_aggBufferLimit = 0\<rparr>"

text \<open>The discipline with the \<open>Mtu\<close> attribute at 1500, after \<open>InitializeParams\<close> under the defaults.\<close>

definition started :: DualPi2QueueDisc where
  "started = (constructed 1500)\<lparr>m_thLen := 1, m_pCmax := 1 / 4, m_pLmax := 1\<rparr>"

text \<open>Packets stamped at time 0: ECT(1), and Not-ECT.\<close>

definition ect1_packet :: "u32 \<Rightarrow> QueueDiscItem" where
  "ect1_packet n = \<lparr>GetSize = n, GetTimeStamp = 0, IP_DSFIELD = Some 1\<rparr>"

definition not_ect_packet :: "u32 \<Rightarrow> QueueDiscItem" where
  "not_ect_packet n = \<lparr>GetSize = n, GetTimeStamp = 0, IP_DSFIELD = Some 0\<rparr>"

text \<open>
  A state in which the Classic controller is saturated: three Not-ECT packets of 1500
  bytes enqueued at time 0, then the timer update at time 1 s.
\<close>

definition saturated :: DualPi2QueueDisc where
  "saturated =
     started\<lparr>classicQueue := [not_ect_packet 1500, not_ect_packet 1500, not_ect_packet 1500],
       m_baseProb := 1, m_pCL := 1, m_pC := 1, m_prevQ := 1000000000\<rparr>"

text \<open>
  The state after two ECT(1) packets of 1500 bytes and two Not-ECT packets of 1000 bytes
  were enqueued, the pending-dequeue callback ran with 2700 pending bytes on a stopped
  device queue, and the two packets it staged were dequeued: one packet of each class
  is left, both bands are in the round, and 500 bytes of Classic deficit remain.
\<close>

definition stalled :: DualPi2QueueDisc where
  "stalled =
     started\<lparr>classicQueue := [not_ect_packet 1000], l4sQueue := [ect1_packet 1500],
       m_classicDeficit := 500, m_llDeficit := 12000,
       m_drrQueues_CLASSIC := True, m_drrQueues_L4S := True, m_cBytesSample := 2000\<rparr>"

text \<open>
  A moderately congested state: one Not-ECT packet of 1000 bytes enqueued at time 0, then
  the timer update at 20 ms.
\<close>

definition congested :: DualPi2QueueDisc where
  "congested =
     started\<lparr>classicQueue := [not_ect_packet 1000],
       m_baseProb := 243 / 4000, m_pCL := 243 / 2000, m_pC := 59049 / 16000000,
       m_prevQ := 20000000\<rparr>"

text \<open>The defaults with a negative coupling factor, and the state after the same update at 1 s.\<close>

definition negative_k :: Attributes where
  "negative_k = defaults\<lparr>m_k := - 2\<rparr>"

definition decoupled :: DualPi2QueueDisc where
  "decoupled =
     started\<lparr>classicQueue := [not_ect_packet 1000],
       m_baseProb := 1, m_pCL := - 2, m_pC := 1, m_prevQ := 1000000000\<rparr>"





text \<open>
  A burst of four ECT(1) packets of 1500 bytes enqueued at time 0, and what the batch loop
  of the callback makes of it at 2 ms with 3076 pending bytes: two packets staged, the
  second marked by LAQM, two packets left in the L4S queue.
\<close>

definition burst :: DualPi2QueueDisc where
  "burst =
     started\<lparr>l4sQueue := [ect1_packet 1500, ect1_packet 1500, ect1_packet 1500,
                            ect1_packet 1500]\<rparr>"

definition burst_staged :: DualPi2QueueDisc where
  "burst_staged =
     started\<lparr>l4sQueue := [ect1_packet 1500, ect1_packet 1500],
       m_l4sStagingQueue := [ect1_packet 1500, (ect1_packet 1500)\<lparr>IP_DSFIELD := Some 3\<rparr>],
       m_pL := 1, m_llDeficit := 10500, m_classicDeficit := 1500,
       m_drrQueues_CLASSIC := True, m_drrQueues_L4S := True, m_l4sCount := 1,
       m_lLatencySample := 2000000\<rparr>"

subsection \<open>Predicates used in the statements\<close>

text \<open>An item whose DS field reads with the ECN bits 01, as the mark top-up tests it.\<close>

definition is_ECT1 :: "QueueDiscItem \<Rightarrow> bool" where
  "is_ECT1 p = (case IP_DSFIELD p of Some tosByte \<Rightarrow> tosByte AND 3 = 1 | None \<Rightarrow> False)"

text \<open>
  The invariant of the AQM state: both \<open>Recur\<close> counters and \<open>p_C\<close> in the unit
  interval, \<open>p_CL\<close> at most 1, \<open>p_Lmax\<close> equal to 1, and only L4S items in the L4S queue.
\<close>

definition aqm_inv :: "DualPi2QueueDisc \<Rightarrow> bool" where
  "aqm_inv s \<longleftrightarrow>
     0 \<le> m_classicCount s \<and> m_classicCount s \<le> 1 \<and> 0 \<le> m_l4sCount s \<and> m_l4sCount s \<le> 1 \<and>
     0 \<le> m_pC s \<and> m_pC s \<le> 1 \<and> m_pCL s \<le> 1 \<and> m_pLmax s = 1 \<and>
     (\<forall>p \<in> set (l4sQueue s). IsL4s p)"

text \<open>How the two probabilities derived from \<open>base_prob\<close> relate to the coupling factor.\<close>

definition coupled_inv :: "Attributes \<Rightarrow> DualPi2QueueDisc \<Rightarrow> bool" where
  "coupled_inv a s \<longleftrightarrow>
     (0 \<le> m_k a \<longrightarrow> 0 \<le> m_pCL s) \<and>
     (0 < m_k a \<and> m_pCL s < 1 \<longrightarrow> m_pC s \<le> min (1 / (m_k a)\<^sup>2) 1)"

section \<open>Supporting lemmas\<close>

lemmas sample_defs = started_def constructed_def defaults_def not_ect_packet_def ect1_packet_def

lemma Mark_item_L4s: "IsL4s p \<Longrightarrow> fst (Mark_item p)"
  by (auto simp: IsL4s_def Mark_item_def split: option.splits)

lemma Recur_unit:
  "0 \<le> c \<Longrightarrow> c \<le> 1 \<Longrightarrow> 0 \<le> l \<Longrightarrow> l \<le> 1 \<Longrightarrow> 0 \<le> snd (Recur c l) \<and> snd (Recur c l) \<le> 1"
  by (simp add: Recur_def Let_def)

lemma Laqm_nonneg: "0 \<le> Laqm a d"
  by (auto simp: Laqm_def GetSeconds_def intro!: divide_nonneg_nonneg)

subsection \<open>The scheduler changes neither the queues nor the AQM state\<close>

lemma SchedulerBody_frame:
  assumes "SchedulerBody a e l c s = (r, s')"
  shows "classicQueue s' = classicQueue s \<and> l4sQueue s' = l4sQueue s \<and>
         m_pC s' = m_pC s \<and> m_pCL s' = m_pCL s \<and> m_pLmax s' = m_pLmax s \<and>
         m_classicCount s' = m_classicCount s \<and> m_l4sCount s' = m_l4sCount s \<and>
         (r = Some L4S \<longrightarrow> l \<noteq> 0) \<and> (r = Some CLASSIC \<longrightarrow> c \<noteq> 0) \<and> r \<noteq> Some NONE"
  using assms by (auto simp: SchedulerBody_def Let_def split: if_splits)

lemma SchedulerLoop_frame:
  "SchedulerLoop a e l c i m s = Inr (b, s') \<Longrightarrow>
     classicQueue s' = classicQueue s \<and> l4sQueue s' = l4sQueue s \<and>
     m_pC s' = m_pC s \<and> m_pCL s' = m_pCL s \<and> m_pLmax s' = m_pLmax s \<and>
     m_classicCount s' = m_classicCount s \<and> m_l4sCount s' = m_l4sCount s \<and>
     (b = L4S \<longrightarrow> l \<noteq> 0) \<and> (b = CLASSIC \<longrightarrow> c \<noteq> 0) \<and> b \<noteq> NONE"
proof (induction a e l c i m s rule: SchedulerLoop.induct)
  case (1 a e l c i m s)
  from "1.prems" have lt: "i < m"
    by (subst (asm) SchedulerLoop.simps) (simp split: if_splits)
  obtain r t where body: "SchedulerBody a e l c s = (r, t)"
    by (cases "SchedulerBody a e l c s")
  note fr = SchedulerBody_frame [OF body]
  show ?case
  proof (cases r)
    case None
    with "1.prems" lt body have "SchedulerLoop a e l c (i + 1) (m + 1) t = Inr (b, s')"
      by (subst (asm) SchedulerLoop.simps) simp
    from "1.IH" [OF lt body [symmetric] None this] fr show ?thesis
      by simp
  next
    case (Some b')
    with "1.prems" lt body have "b' = b" "t = s'"
      by (subst (asm) SchedulerLoop.simps, simp)+
    with fr Some show ?thesis
      by simp
  qed
qed

lemma Scheduler_frame:
  assumes "Scheduler a e s = Inr (b, s')"
  shows "classicQueue s' = classicQueue s \<and> l4sQueue s' = l4sQueue s \<and>
     m_pC s' = m_pC s \<and> m_pCL s' = m_pCL s \<and> m_pLmax s' = m_pLmax s \<and>
     m_classicCount s' = m_classicCount s \<and> m_l4sCount s' = m_l4sCount s \<and>
     (b = L4S \<longrightarrow> l4sQueue s \<noteq> []) \<and> (b = CLASSIC \<longrightarrow> classicQueue s \<noteq> [])"
proof (cases "GetNPackets_disc s = 0")
  case True
  with assms show ?thesis
    by (auto simp: Scheduler_def Let_def split: if_splits)
next
  case False
  with assms have loop: "SchedulerLoop a e
      (case Peek (l4sQueue s) of Some p \<Rightarrow> GetSize p | None \<Rightarrow> 0)
      (case Peek (classicQueue s) of Some p \<Rightarrow> GetSize p | None \<Rightarrow> 0) 0 1000 s = Inr (b, s')"
    by (simp add: Scheduler_def Let_def split: if_splits)
  from SchedulerLoop_frame [OF loop] show ?thesis
    by (auto simp: Peek_def split: list.splits)
qed

subsection \<open>The dequeue loops shorten their queue and keep the invariant\<close>

lemma Dequeue_L4S_shrinks:
  "classicQueue (snd (Dequeue_L4S s)) = classicQueue s \<and>
   length (l4sQueue (snd (Dequeue_L4S s))) + (case fst (Dequeue_L4S s) of None \<Rightarrow> 0 | Some _ \<Rightarrow> 1)
     = length (l4sQueue s)"
  by (simp add: Dequeue_L4S_def split: list.splits)

lemma Dequeue_CLASSIC_shrinks:
  "l4sQueue (snd (Dequeue_CLASSIC s)) = l4sQueue s \<and>
   length (classicQueue (snd (Dequeue_CLASSIC s))) + (case fst (Dequeue_CLASSIC s) of None \<Rightarrow> 0 | Some _ \<Rightarrow> 1)
     = length (classicQueue s)"
  by (simp add: Dequeue_CLASSIC_def split: list.splits)

lemma L4sWhile_queues:
  "L4sWhile a now q s = Inr (r, m, s') \<Longrightarrow>
     classicQueue s' = classicQueue s \<and> length (l4sQueue s') \<le> length (l4sQueue s)"
proof (induction a now q s rule: L4sWhile.induct)
  case (1 a now qdItem s)
  show ?case
  proof (cases qdItem)
    case None
    with "1.prems" show ?thesis by simp
  next
    case (Some p)
    show ?thesis
    proof (cases "\<not> m_pCL s < m_pLmax s \<and> fst (Recur (m_l4sCount s) (m_pC s))")
      case True
      define s2 where "s2 = Drop p UNFORCED_L4S_DROP (s\<lparr>m_l4sCount := snd (Recur (m_l4sCount s) (m_pC s))\<rparr>)"
      from "1.prems" Some True
      have rec: "L4sWhile a now (fst (Dequeue_L4S s2)) (snd (Dequeue_L4S s2)) = Inr (r, m, s')"
        by (subst (asm) L4sWhile.simps) (simp add: s2_def Let_def)
      have "classicQueue s' = classicQueue (snd (Dequeue_L4S s2)) \<and>
            length (l4sQueue s') \<le> length (l4sQueue (snd (Dequeue_L4S s2)))"
        using True by (intro "1.IH" [OF Some _ refl refl _ s2_def rec]) simp_all
      moreover have "classicQueue s2 = classicQueue s" "l4sQueue s2 = l4sQueue s"
        by (simp_all add: s2_def Drop_def)
      ultimately show ?thesis
        using Dequeue_L4S_shrinks [of s2] by (simp split: option.splits)
    next
      case False
      with "1.prems" Some show ?thesis
        by (subst (asm) L4sWhile.simps) (auto simp: Let_def split: if_splits)
    qed
  qed
qed

lemma L4sWhile_inv:
  "aqm_inv s \<Longrightarrow> L4sWhile a now q s = Inr (r, m, s') \<Longrightarrow>
     aqm_inv s' \<and> m_pC s' = m_pC s \<and> m_pCL s' = m_pCL s"
proof (induction a now q s rule: L4sWhile.induct)
  case (1 a now qdItem s)
  note inv = \<open>aqm_inv s\<close>
  show ?case
  proof (cases qdItem)
    case None
    with "1.prems" show ?thesis by simp
  next
    case (Some p)
    show ?thesis
    proof (cases "m_pCL s < m_pLmax s")
      case True
      define pL where "pL = min (max (if GetNPackets (l4sQueue s) > m_thLen s
                            then Laqm a (now - GetTimeStamp p) else 0) (m_pCL s)) 1"
      have "0 \<le> pL" "pL \<le> 1"
        using Laqm_nonneg [of a "now - GetTimeStamp p"] by (auto simp: pL_def)
      with inv have "0 \<le> snd (Recur (m_l4sCount s) pL) \<and> snd (Recur (m_l4sCount s) pL) \<le> 1"
        by (intro Recur_unit) (simp_all add: aqm_inv_def)
      moreover from "1.prems"(2) Some True
      have "s' = s\<lparr>m_pL := pL, m_l4sCount := snd (Recur (m_l4sCount s) pL)\<rparr>"
        by (subst (asm) L4sWhile.simps) (auto simp: Let_def pL_def split: if_splits)
      ultimately show ?thesis
        using inv by (simp add: aqm_inv_def)
    next
      case False
      with inv have pcl: "m_pCL s = 1"
        by (simp add: aqm_inv_def)
      define c1 where "c1 = snd (Recur (m_l4sCount s) (m_pC s))"
      from inv have c1: "0 \<le> c1 \<and> c1 \<le> 1"
        unfolding c1_def by (intro Recur_unit) (simp_all add: aqm_inv_def)
      show ?thesis
      proof (cases "fst (Recur (m_l4sCount s) (m_pC s))")
        case True
        define s2 where "s2 = Drop p UNFORCED_L4S_DROP (s\<lparr>m_l4sCount := snd (Recur (m_l4sCount s) (m_pC s))\<rparr>)"
        from "1.prems"(2) Some False True
        have rec: "L4sWhile a now (fst (Dequeue_L4S s2)) (snd (Dequeue_L4S s2)) = Inr (r, m, s')"
          by (subst (asm) L4sWhile.simps) (simp add: s2_def Let_def)
        have inv2: "aqm_inv (snd (Dequeue_L4S s2))"
          using inv c1 by (simp add: s2_def Drop_def Dequeue_L4S_def aqm_inv_def c1_def split: list.splits)
        have "aqm_inv s' \<and> m_pC s' = m_pC (snd (Dequeue_L4S s2)) \<and> m_pCL s' = m_pCL (snd (Dequeue_L4S s2))"
          by (rule "1.IH" [OF Some False refl refl True s2_def inv2 rec])
        moreover have "m_pC (snd (Dequeue_L4S s2)) = m_pC s" "m_pCL (snd (Dequeue_L4S s2)) = m_pCL s"
          by (simp_all add: s2_def Drop_def Dequeue_L4S_def split: list.splits)
        ultimately show ?thesis by simp
      next
        case nodrop: False
        have "0 \<le> snd (Recur c1 1) \<and> snd (Recur c1 1) \<le> 1"
          using c1 by (intro Recur_unit) simp_all
        moreover from "1.prems"(2) Some False nodrop pcl
        have "s' = s\<lparr>m_l4sCount := snd (Recur c1 1)\<rparr>"
          by (subst (asm) L4sWhile.simps) (auto simp: Let_def c1_def split: if_splits)
        ultimately show ?thesis
          using inv by (simp add: aqm_inv_def)
      qed
    qed
  qed
qed

lemma ClassicWhile_queues:
  "ClassicWhile q d s = (r, d', s') \<Longrightarrow>
     l4sQueue s' = l4sQueue s \<and> length (classicQueue s') \<le> length (classicQueue s)"
proof (induction q d s rule: ClassicWhile.induct)
  case (1 qdItem dropped s)
  show ?case
  proof (cases qdItem)
    case None
    with "1.prems" show ?thesis by simp
  next
    case (Some p)
    define s1 where "s1 = s\<lparr>m_classicCount := snd (Recur (m_classicCount s) (m_pC s))\<rparr>"
    show ?thesis
    proof (cases "fst (Recur (m_classicCount s) (m_pC s)) \<or> m_pC s1 \<ge> m_pCmax s1")
      case True
      define s2 where "s2 = Drop p UNFORCED_CLASSIC_DROP s1"
      from "1.prems" Some True
      have rec: "ClassicWhile (fst (Dequeue_CLASSIC s2)) True (snd (Dequeue_CLASSIC s2)) = (r, d', s')"
        by (subst (asm) ClassicWhile.simps) (simp add: s2_def s1_def Let_def)
      have "l4sQueue s' = l4sQueue (snd (Dequeue_CLASSIC s2)) \<and>
            length (classicQueue s') \<le> length (classicQueue (snd (Dequeue_CLASSIC s2)))"
        by (rule "1.IH" [OF Some refl s1_def True s2_def rec])
      moreover have "classicQueue s2 = classicQueue s" "l4sQueue s2 = l4sQueue s"
        by (simp_all add: s2_def s1_def Drop_def)
      ultimately show ?thesis
        using Dequeue_CLASSIC_shrinks [of s2] by (simp split: option.splits)
    next
      case False
      with "1.prems" Some show ?thesis
        by (subst (asm) ClassicWhile.simps) (auto simp: Let_def s1_def split: if_splits)
    qed
  qed
qed

lemma ClassicWhile_inv:
  "aqm_inv s \<Longrightarrow> ClassicWhile q d s = (r, d', s') \<Longrightarrow>
     aqm_inv s' \<and> m_pC s' = m_pC s \<and> m_pCL s' = m_pCL s"
proof (induction q d s rule: ClassicWhile.induct)
  case (1 qdItem dropped s)
  note inv = \<open>aqm_inv s\<close>
  show ?case
  proof (cases qdItem)
    case None
    with "1.prems" show ?thesis by simp
  next
    case (Some p)
    define s1 where "s1 = s\<lparr>m_classicCount := snd (Recur (m_classicCount s) (m_pC s))\<rparr>"
    from inv have "0 \<le> snd (Recur (m_classicCount s) (m_pC s)) \<and> snd (Recur (m_classicCount s) (m_pC s)) \<le> 1"
      by (intro Recur_unit) (simp_all add: aqm_inv_def)
    with inv have inv1: "aqm_inv s1"
      by (simp add: s1_def aqm_inv_def)
    show ?thesis
    proof (cases "fst (Recur (m_classicCount s) (m_pC s)) \<or> m_pC s1 \<ge> m_pCmax s1")
      case True
      define s2 where "s2 = Drop p UNFORCED_CLASSIC_DROP s1"
      from "1.prems"(2) Some True
      have rec: "ClassicWhile (fst (Dequeue_CLASSIC s2)) True (snd (Dequeue_CLASSIC s2)) = (r, d', s')"
        by (subst (asm) ClassicWhile.simps) (simp add: s2_def s1_def Let_def)
      have inv2: "aqm_inv (snd (Dequeue_CLASSIC s2))"
        using inv1 by (simp add: s2_def Drop_def Dequeue_CLASSIC_def aqm_inv_def split: list.splits)
      have "aqm_inv s' \<and> m_pC s' = m_pC (snd (Dequeue_CLASSIC s2)) \<and> m_pCL s' = m_pCL (snd (Dequeue_CLASSIC s2))"
        by (rule "1.IH" [OF Some refl s1_def True s2_def inv2 rec])
      moreover have "m_pC (snd (Dequeue_CLASSIC s2)) = m_pC s" "m_pCL (snd (Dequeue_CLASSIC s2)) = m_pCL s"
        by (simp_all add: s2_def s1_def Drop_def Dequeue_CLASSIC_def split: list.splits)
      ultimately show ?thesis by simp
    next
      case False
      with "1.prems"(2) Some have "s' = s1"
        by (subst (asm) ClassicWhile.simps) (auto simp: Let_def s1_def split: if_splits)
      with inv1 show ?thesis
        by (simp add: s1_def)
    qed
  qed
qed

lemma DequeueFromL4sQueue_queues:
  assumes "DequeueFromL4sQueue a now s = Inr (r, m, s')" and "l4sQueue s \<noteq> []"
  shows "classicQueue s' = classicQueue s \<and> length (l4sQueue s') < length (l4sQueue s)"
  using L4sWhile_queues [OF assms(1) [unfolded DequeueFromL4sQueue_def]]
    Dequeue_L4S_shrinks [of s] assms(2)
  by (auto simp: Dequeue_L4S_def split: list.splits)

lemma DequeueFromClassicQueue_queues:
  assumes "DequeueFromClassicQueue s = (r, d, s')" and "classicQueue s \<noteq> []"
  shows "l4sQueue s' = l4sQueue s \<and> length (classicQueue s') < length (classicQueue s)"
proof (cases "GetNBytes (classicQueue (snd (Dequeue_CLASSIC s))) < 2 * m_mtu (snd (Dequeue_CLASSIC s))")
  case True
  with assms show ?thesis
    by (auto simp: DequeueFromClassicQueue_def Let_def Dequeue_CLASSIC_def split: list.splits)
next
  case False
  with assms(1) have "ClassicWhile (fst (Dequeue_CLASSIC s)) False (snd (Dequeue_CLASSIC s)) = (r, d, s')"
    by (simp add: DequeueFromClassicQueue_def Let_def)
  from ClassicWhile_queues [OF this] assms(2) show ?thesis
    by (auto simp: Dequeue_CLASSIC_def split: list.splits)
qed

lemma Dequeue_L4S_inv:
  "aqm_inv s \<Longrightarrow> aqm_inv (snd (Dequeue_L4S s)) \<and> m_pC (snd (Dequeue_L4S s)) = m_pC s
     \<and> m_pCL (snd (Dequeue_L4S s)) = m_pCL s"
  by (simp add: Dequeue_L4S_def aqm_inv_def split: list.splits)

lemma Dequeue_CLASSIC_inv:
  "aqm_inv s \<Longrightarrow> aqm_inv (snd (Dequeue_CLASSIC s)) \<and> m_pC (snd (Dequeue_CLASSIC s)) = m_pC s
     \<and> m_pCL (snd (Dequeue_CLASSIC s)) = m_pCL s"
  by (simp add: Dequeue_CLASSIC_def aqm_inv_def split: list.splits)

lemma DequeueFromL4sQueue_inv:
  assumes "aqm_inv s" and "DequeueFromL4sQueue a now s = Inr (r, m, s')"
  shows "aqm_inv s' \<and> m_pC s' = m_pC s \<and> m_pCL s' = m_pCL s"
  using L4sWhile_inv [OF _ assms(2) [unfolded DequeueFromL4sQueue_def]] Dequeue_L4S_inv [OF assms(1)]
  by simp

lemma DequeueFromClassicQueue_inv:
  assumes "aqm_inv s" and "DequeueFromClassicQueue s = (r, d, s')"
  shows "aqm_inv s' \<and> m_pC s' = m_pC s \<and> m_pCL s' = m_pCL s"
proof (cases "GetNBytes (classicQueue (snd (Dequeue_CLASSIC s))) < 2 * m_mtu (snd (Dequeue_CLASSIC s))")
  case True
  with assms(2) have "s' = snd (Dequeue_CLASSIC s)"
    by (simp add: DequeueFromClassicQueue_def Let_def)
  with Dequeue_CLASSIC_inv [OF assms(1)] show ?thesis by simp
next
  case False
  with assms(2) have "ClassicWhile (fst (Dequeue_CLASSIC s)) False (snd (Dequeue_CLASSIC s)) = (r, d, s')"
    by (simp add: DequeueFromClassicQueue_def Let_def)
  from ClassicWhile_inv [OF _ this] Dequeue_CLASSIC_inv [OF assms(1)] show ?thesis
    by simp
qed

lemma Scheduler_inv:
  assumes "aqm_inv s" and "Scheduler a e s = Inr (b, s')"
  shows "aqm_inv s' \<and> m_pC s' = m_pC s \<and> m_pCL s' = m_pCL s"
  using Scheduler_frame [OF assms(2)] assms(1) by (simp add: aqm_inv_def)

termination DoDequeueWhile
proof (relation "measure (\<lambda>(a, now, s). length (classicQueue s) + length (l4sQueue s))")
  show "wf (measure (\<lambda>(a, now, s). length (classicQueue s) + length (l4sQueue s)))"
    by simp
next
  fix a now s b x y xa ya xb yb
  assume sched: "Scheduler a (True, True) s = Inr b" "(x, y) = b" "x = CLASSIC"
    and deq: "(xa, ya) = DequeueFromClassicQueue y" "xa = None" "(xb, yb) = ya"
  from sched have fr: "Scheduler a (True, True) s = Inr (CLASSIC, y)" by simp
  from deq have "DequeueFromClassicQueue y = (None, xb, yb)" by simp
  from DequeueFromClassicQueue_queues [OF this] Scheduler_frame [OF fr]
  show "((a, now, yb), (a, now, s)) \<in> measure (\<lambda>(a, now, s). length (classicQueue s) + length (l4sQueue s))"
    by simp
next
  fix a now s b x y ba xa ya xb yb
  assume sched: "Scheduler a (True, True) s = Inr b" "(x, y) = b" "x = L4S"
    and deq: "DequeueFromL4sQueue a now y = Inr ba" "(xa, ya) = ba" "xa = None" "(xb, yb) = ya"
  from sched have fr: "Scheduler a (True, True) s = Inr (L4S, y)" by simp
  from deq have "DequeueFromL4sQueue a now y = Inr (None, xb, yb)" by simp
  from DequeueFromL4sQueue_queues [OF this] Scheduler_frame [OF fr]
  show "((a, now, yb), (a, now, s)) \<in> measure (\<lambda>(a, now, s). length (classicQueue s) + length (l4sQueue s))"
    by simp
qed

lemma DoDequeueWhile_inv:
  "aqm_inv s \<Longrightarrow> DoDequeueWhile a now s = Inr (r, s') \<Longrightarrow>
     aqm_inv s' \<and> m_pC s' = m_pC s \<and> m_pCL s' = m_pCL s"
proof (induction a now s rule: DoDequeueWhile.induct)
  case (1 a now s)
  note inv = \<open>aqm_inv s\<close>
  show ?case
  proof (cases "GetQueueSize s > 0")
    case False
    with "1.prems" show ?thesis
      by (subst (asm) DoDequeueWhile.simps) simp
  next
    case True
    show ?thesis
    proof (cases "Scheduler a (True, True) s")
      case (Inl e)
      with "1.prems" True show ?thesis
        by (subst (asm) DoDequeueWhile.simps) simp
    next
      case (Inr bs)
      obtain selected s1 where bs: "bs = (selected, s1)"
        by (cases bs)
      note sch = Scheduler_inv [OF inv Inr [unfolded bs]]
      show ?thesis
      proof (cases selected)
        case NONE
        with "1.prems"(2) True Inr bs have "s' = s1"
          by (subst (asm) DoDequeueWhile.simps) simp
        with sch show ?thesis by simp
      next
        case L4S
        show ?thesis
        proof (cases "DequeueFromL4sQueue a now s1")
          case (Inl e)
          with "1.prems"(2) True Inr bs L4S show ?thesis
            by (subst (asm) DoDequeueWhile.simps) simp
        next
          case deq: (Inr res)
          obtain it marked s2 where res: "res = (it, marked, s2)"
            by (cases res)
          note dq = DequeueFromL4sQueue_inv [OF conjunct1 [OF sch] deq [unfolded res]]
          show ?thesis
          proof (cases it)
            case None
            with "1.prems"(2) True Inr bs L4S deq res
            have rec: "DoDequeueWhile a now s2 = Inr (r, s')"
              by (subst (asm) DoDequeueWhile.simps) simp
            have "aqm_inv s' \<and> m_pC s' = m_pC s2 \<and> m_pCL s' = m_pCL s2"
              by (rule "1.IH"(2) [OF True Inr bs [symmetric] L4S deq res [symmetric] None refl conjunct1 [OF dq] rec])
            with sch dq show ?thesis by simp
          next
            case (Some p)
            with "1.prems"(2) True Inr bs L4S deq res have "s' = s2"
              by (subst (asm) DoDequeueWhile.simps) simp
            with sch dq show ?thesis by simp
          qed
        qed
      next
        case CLASSIC
        obtain it dropped s2 where res: "DequeueFromClassicQueue s1 = (it, dropped, s2)"
          by (cases "DequeueFromClassicQueue s1")
        note dq = DequeueFromClassicQueue_inv [OF conjunct1 [OF sch] res]
        show ?thesis
        proof (cases it)
          case None
          with "1.prems"(2) True Inr bs CLASSIC res
          have rec: "DoDequeueWhile a now s2 = Inr (r, s')"
            by (subst (asm) DoDequeueWhile.simps) simp
          have "aqm_inv s' \<and> m_pC s' = m_pC s2 \<and> m_pCL s' = m_pCL s2"
            by (rule "1.IH"(1) [OF True Inr bs [symmetric] CLASSIC res [symmetric] None refl conjunct1 [OF dq] rec])
          with sch dq show ?thesis by simp
        next
          case (Some p)
          with "1.prems"(2) True Inr bs CLASSIC res have "s' = s2"
            by (subst (asm) DoDequeueWhile.simps) simp
          with sch dq show ?thesis by simp
        qed
      qed
    qed
  qed
qed

lemma PendingLoop_inv:
  "aqm_inv s \<Longrightarrow> PendingLoop a now i pbl mc s = Inr (mc', s') \<Longrightarrow>
     aqm_inv s' \<and> m_pC s' = m_pC s \<and> m_pCL s' = m_pCL s"
proof (induction a now i pbl mc s rule: PendingLoop.induct)
  case (1 a now i pbl mc s)
  note inv = \<open>aqm_inv s\<close>
  show ?case
  proof (cases "i < 1000")
    case False
    with "1.prems" show ?thesis
      by (subst (asm) PendingLoop.simps) (simp split: if_splits)
  next
    case lt: True
    then have le: "i \<le> 1000" and nn: "\<not> \<not> i < 1000" by simp_all
    define e where "e = CanSchedule pbl s"
    show ?thesis
    proof (cases "\<not> fst e \<and> \<not> snd e")
      case True
      with "1.prems" lt show ?thesis
        by (subst (asm) PendingLoop.simps) (simp add: e_def Let_def)
    next
      case el: False
      then have el': "(\<not> fst (CanSchedule pbl s) \<and> \<not> snd (CanSchedule pbl s)) = False"
        by (simp add: e_def)
      show ?thesis
      proof (cases "Scheduler a e s")
        case (Inl err)
        with "1.prems" lt show ?thesis
          by (subst (asm) PendingLoop.simps) (simp add: e_def Let_def el')
      next
        case (Inr bs)
        obtain selected s1 where bs: "bs = (selected, s1)"
          by (cases bs)
        note sch = Scheduler_inv [OF inv Inr [unfolded bs]]
        show ?thesis
        proof (cases selected)
          case NONE
          with "1.prems"(2) lt Inr bs have "s' = s1"
            by (subst (asm) PendingLoop.simps) (simp add: e_def Let_def el')
          with sch show ?thesis by simp
        next
          case L4S
          show ?thesis
          proof (cases "DequeueFromL4sQueue a now s1")
            case (Inl err)
            with "1.prems"(2) lt Inr bs L4S show ?thesis
              by (subst (asm) PendingLoop.simps) (simp add: e_def Let_def el')
          next
            case deq: (Inr res)
            obtain it marked s2 where res: "res = (it, marked, s2)"
              by (cases res)
            note dq = DequeueFromL4sQueue_inv [OF conjunct1 [OF sch] deq [unfolded res]]
            show ?thesis
            proof (cases it)
              case None
              with "1.prems"(2) lt Inr bs L4S deq res
              have rec: "PendingLoop a now (i + 1) pbl mc s2 = Inr (mc', s')"
                by (subst (asm) PendingLoop.simps) (simp add: e_def Let_def el')
              have "aqm_inv s' \<and> m_pC s' = m_pC s2 \<and> m_pCL s' = m_pCL s2"
                by (rule "1.IH"(3) [OF le nn e_def el Inr bs [symmetric] L4S deq res [symmetric]
                      None refl conjunct1 [OF dq] rec])
              with sch dq show ?thesis by simp
            next
              case (Some p)
              show ?thesis
              proof (cases "GetSize p + 38 \<le> pbl")
                case False
                with "1.prems"(2) lt Inr bs L4S deq res Some show ?thesis
                  by (subst (asm) PendingLoop.simps) (simp add: e_def Let_def el')
              next
                case True
                then have fits: "\<not> \<not> GetSize p + 38 \<le> pbl" by simp
                from "1.prems"(2) lt Inr bs L4S deq res Some True
                have rec: "PendingLoop a now (i + 1) (pbl - (GetSize p + 38))
                     (if marked then mc + 1 else mc) (AddToL4sStagingQueue p s2) = Inr (mc', s')"
                  by (subst (asm) PendingLoop.simps) (simp add: e_def Let_def el')
                have inv2: "aqm_inv (AddToL4sStagingQueue p s2)"
                  using dq by (simp add: AddToL4sStagingQueue_def aqm_inv_def)
                have "aqm_inv s' \<and> m_pC s' = m_pC (AddToL4sStagingQueue p s2)
                        \<and> m_pCL s' = m_pCL (AddToL4sStagingQueue p s2)"
                  by (rule "1.IH"(4) [OF le nn e_def el Inr bs [symmetric] L4S deq res [symmetric]
                        Some refl fits inv2 rec])
                with sch dq show ?thesis by (simp add: AddToL4sStagingQueue_def)
              qed
            qed
          qed
        next
          case CLASSIC
          obtain it dropped s2 where res: "DequeueFromClassicQueue s1 = (it, dropped, s2)"
            by (cases "DequeueFromClassicQueue s1")
          note dq = DequeueFromClassicQueue_inv [OF conjunct1 [OF sch] res]
          show ?thesis
          proof (cases it)
            case None
            with "1.prems"(2) lt Inr bs CLASSIC res
            have rec: "PendingLoop a now (i + 1) pbl mc s2 = Inr (mc', s')"
              by (subst (asm) PendingLoop.simps) (simp add: e_def Let_def el')
            have "aqm_inv s' \<and> m_pC s' = m_pC s2 \<and> m_pCL s' = m_pCL s2"
              by (rule "1.IH"(1) [OF le nn e_def el Inr bs [symmetric] CLASSIC res [symmetric]
                    None refl conjunct1 [OF dq] rec])
            with sch dq show ?thesis by simp
          next
            case (Some p)
            show ?thesis
            proof (cases "GetSize p + 38 \<le> pbl")
              case False
              with "1.prems"(2) lt Inr bs CLASSIC res Some show ?thesis
                by (subst (asm) PendingLoop.simps) (simp add: e_def Let_def el')
            next
              case True
              then have fits: "\<not> \<not> GetSize p + 38 \<le> pbl" by simp
              from "1.prems"(2) lt Inr bs CLASSIC res Some True
              have rec: "PendingLoop a now (i + 1) (pbl - (GetSize p + 38)) mc
                   (AddToClassicStagingQueue p s2) = Inr (mc', s')"
                by (subst (asm) PendingLoop.simps) (simp add: e_def Let_def el')
              have inv2: "aqm_inv (AddToClassicStagingQueue p s2)"
                using dq by (simp add: AddToClassicStagingQueue_def aqm_inv_def)
              have "aqm_inv s' \<and> m_pC s' = m_pC (AddToClassicStagingQueue p s2)
                      \<and> m_pCL s' = m_pCL (AddToClassicStagingQueue p s2)"
                by (rule "1.IH"(2) [OF le nn e_def el Inr bs [symmetric] CLASSIC res [symmetric]
                      Some refl fits inv2 rec])
              with sch dq show ?thesis by (simp add: AddToClassicStagingQueue_def)
            qed
          qed
        qed
      qed
    qed
  qed
qed

lemma PendingDequeueCallback_inv:
  assumes "aqm_inv s" and "PendingDequeueCallback a now stopped pendingBytes s = Inr s'"
  shows "aqm_inv s' \<and> m_pC s' = m_pC s \<and> m_pCL s' = m_pCL s"
proof -
  define s1 where "s1 = RefreshSamples now s"
  have inv1: "aqm_inv s1" and same1: "m_pC s1 = m_pC s" "m_pCL s1 = m_pCL s"
    using assms(1) by (simp_all add: s1_def RefreshSamples_def aqm_inv_def)
  show ?thesis
  proof (cases "\<not> stopped \<or> pendingBytes > GetNBytes_disc s1 + 38 * GetNPackets_disc s1")
    case True
    then have "s' = s1"
    proof
      assume "\<not> stopped"
      with assms(2) show ?thesis
        by (simp add: PendingDequeueCallback_def Let_def s1_def)
    next
      assume "pendingBytes > GetNBytes_disc s1 + 38 * GetNPackets_disc s1"
      with assms(2) show ?thesis
        by (simp add: PendingDequeueCallback_def Let_def s1_def split: if_splits)
    qed
    with inv1 same1 show ?thesis by simp
  next
    case False
    with assms(2) have run: "(case PendingLoop a now 0 pendingBytes 0 s1 of
                    Inl e \<Rightarrow> Inl e
                  | Inr (markedCount, s2) \<Rightarrow> PendingMarks markedCount s2) = Inr s'"
      by (simp add: PendingDequeueCallback_def Let_def s1_def)
    then obtain mc s2 where loop: "PendingLoop a now 0 pendingBytes 0 s1 = Inr (mc, s2)"
      and marks: "PendingMarks mc s2 = Inr s'"
      by (auto split: sum.splits)
    from PendingLoop_inv [OF inv1 loop] have "aqm_inv s2 \<and> m_pC s2 = m_pC s \<and> m_pCL s2 = m_pCL s"
      using same1 by simp
    moreover from marks have "aqm_inv s' = aqm_inv s2 \<and> m_pC s' = m_pC s2 \<and> m_pCL s' = m_pCL s2"
      by (auto simp: PendingMarks_def Let_def aqm_inv_def split: if_splits)
    ultimately show ?thesis by simp
  qed
qed

lemma DoDequeue_inv:
  assumes "aqm_inv s" and "DoDequeue a now s = Inr (r, s')"
  shows "aqm_inv s' \<and> m_pC s' = m_pC s \<and> m_pCL s' = m_pCL s"
proof (cases "m_l4sStagingQueue s")
  case (Cons p q)
  with assms show ?thesis
    by (auto simp: DoDequeue_def DequeueFromL4sStagingQueue_def aqm_inv_def)
next
  case Nil
  show ?thesis
  proof (cases "m_classicStagingQueue s")
    case (Cons p q)
    with assms Nil show ?thesis
      by (auto simp: DoDequeue_def DequeueFromL4sStagingQueue_def
          DequeueFromClassicStagingQueue_def aqm_inv_def)
  next
    case cnil: Nil
    with assms(2) Nil have "DoDequeueWhile a now s = Inr (r, s')"
      by (simp add: DoDequeue_def DequeueFromL4sStagingQueue_def DequeueFromClassicStagingQueue_def)
    from DoDequeueWhile_inv [OF assms(1) this] show ?thesis .
  qed
qed

lemma coupled_inv_cong:
  "m_pC s' = m_pC s \<Longrightarrow> m_pCL s' = m_pCL s \<Longrightarrow> coupled_inv a s' = coupled_inv a s"
  by (simp add: coupled_inv_def)

lemma InitializeParams_inv:
  assumes "InitializeParams a devMtu (constructed mtu) = Inr s"
  shows "aqm_inv s \<and> coupled_inv a s"
  using assms
  by (auto simp: InitializeParams_def constructed_def Let_def aqm_inv_def coupled_inv_def
      split: if_splits option.splits)

lemma DoEnqueue_inv:
  assumes "aqm_inv s" and "DoEnqueue a item s = (ok, s')"
  shows "aqm_inv s' \<and> m_pC s' = m_pC s \<and> m_pCL s' = m_pCL s"
  using assms by (auto simp: DoEnqueue_def Let_def Drop_def aqm_inv_def split: if_splits)

lemma base_prob_coupling:
  fixes b k :: real
  assumes b: "0 \<le> b" "b \<le> 1" and k: "0 < k" and lt: "min (b * k) 1 < 1"
  shows "b * b \<le> min (1 / k\<^sup>2) 1"
proof -
  from lt have "b * k < 1" by simp
  with k have bk: "b < 1 / k" by (simp add: pos_less_divide_eq)
  have "b * b \<le> (1 / k) * (1 / k)"
    using b bk k by (intro mult_mono) simp_all
  also have "\<dots> = 1 / k\<^sup>2" by (simp add: power2_eq_square)
  finally have 1: "b * b \<le> 1 / k\<^sup>2" .
  have "b * b \<le> 1 * 1" using b by (intro mult_mono) simp_all
  with 1 show ?thesis by simp
qed

lemma DualPi2Update_inv:
  assumes "aqm_inv s" and "DualPi2Update a now s = Inr s'"
  shows "aqm_inv s' \<and> coupled_inv a s'"
proof -
  define b where "b = min (max (m_baseProb s
       + m_alpha a * GetSeconds (max (classic_delay a now s) (l4s_delay now s) - m_target a)
       + m_beta a * GetSeconds (max (classic_delay a now s) (l4s_delay now s) - m_prevQ s)) 0) 1"
  have b: "0 \<le> b" "b \<le> 1" by (simp_all add: b_def)
  from assms(2) have s': "s' = s\<lparr>m_baseProb := b, m_pCL := min (b * m_k a) 1, m_pC := b * b,
        m_prevQ := max (classic_delay a now s) (l4s_delay now s)\<rparr>"
    by (simp add: DualPi2Update_def Let_def b_def split: if_splits)
  have bb: "0 \<le> b * b" "b * b \<le> 1"
    using b by (simp_all add: mult_le_one)
  have "aqm_inv s'"
    using assms(1) bb by (simp add: s' aqm_inv_def)
  moreover have "coupled_inv a s'"
    using b base_prob_coupling [of b "m_k a"] by (simp add: s' coupled_inv_def)
  ultimately show ?thesis ..
qed

lemma reachable_inv: "reachable a s \<Longrightarrow> aqm_inv s \<and> coupled_inv a s"
proof (induction rule: reachable.induct)
  case (reach_init devMtu mtu s)
  then show ?case by (rule InitializeParams_inv)
next
  case (reach_enqueue s item ok s')
  with DoEnqueue_inv [OF _ reach_enqueue.hyps(2)] show ?case
    by (simp add: coupled_inv_def)
next
  case (reach_dequeue s now r s')
  with DoDequeue_inv [OF _ reach_dequeue.hyps(2)] show ?case
    by (simp add: coupled_inv_def)
next
  case (reach_pending s now stopped pendingBytes s')
  with PendingDequeueCallback_inv [OF _ reach_pending.hyps(2)] show ?case
    by (simp add: coupled_inv_def)
next
  case (reach_update s now s')
  with DualPi2Update_inv [OF _ reach_update.hyps(2)] show ?case
    by simp
qed

subsection \<open>The sample states are reachable\<close>

lemma started_init: "InitializeParams defaults None (constructed 1500) = Inr started"
  by (simp add: InitializeParams_def defaults_def constructed_def started_def Let_def)

lemma reachable_started: "reachable defaults started"
  by (rule reach_init [OF started_init])

lemma reachable_saturated: "reachable defaults saturated"
proof -
  let ?p = "not_ect_packet 1500"
  have 1: "reachable defaults (started\<lparr>classicQueue := [?p]\<rparr>)"
    by (rule reach_enqueue [OF reachable_started, of ?p True])
       (simp add: DoEnqueue_def GetQueueSize_def GetNBytes_def IsL4s_def Let_def sample_defs)
  have 2: "reachable defaults (started\<lparr>classicQueue := [?p, ?p]\<rparr>)"
    by (rule reach_enqueue [OF 1, of ?p True])
       (simp add: DoEnqueue_def GetQueueSize_def GetNBytes_def IsL4s_def Let_def sample_defs)
  have 3: "reachable defaults (started\<lparr>classicQueue := [?p, ?p, ?p]\<rparr>)"
    by (rule reach_enqueue [OF 2, of ?p True])
       (simp add: DoEnqueue_def GetQueueSize_def GetNBytes_def IsL4s_def Let_def sample_defs)
  show ?thesis
    by (rule reach_update [OF 3, of 1000000000])
       (simp add: DualPi2Update_def classic_delay_def l4s_delay_def Peek_def GetSeconds_def
          Let_def saturated_def sample_defs)
qed

section \<open>Properties stated by the specification\<close>

subsection \<open>C1: bounds of the derived probabilities\<close>

lemma started_init_any:
  "m_k a * m_k a = 4 \<Longrightarrow> InitializeParams a None (constructed 1500) = Inr started"
  by (simp add: InitializeParams_def constructed_def started_def Let_def)

lemma reachable_congested: "reachable defaults congested"
proof -
  let ?p = "not_ect_packet 1000"
  have 1: "reachable defaults (started\<lparr>classicQueue := [?p]\<rparr>)"
    by (rule reach_enqueue [OF reachable_started, of ?p True])
       (simp add: DoEnqueue_def GetQueueSize_def GetNBytes_def IsL4s_def Let_def sample_defs)
  show ?thesis
    by (rule reach_update [OF 1, of 20000000])
       (simp add: DualPi2Update_def classic_delay_def l4s_delay_def Peek_def GetSeconds_def
          Let_def congested_def sample_defs)
qed

lemma reachable_decoupled: "reachable negative_k decoupled"
proof -
  let ?p = "not_ect_packet 1000"
  have 0: "reachable negative_k started"
    by (rule reach_init [OF started_init_any]) (simp add: negative_k_def defaults_def)
  have 1: "reachable negative_k (started\<lparr>classicQueue := [?p]\<rparr>)"
    by (rule reach_enqueue [OF 0, of ?p True])
       (simp add: DoEnqueue_def GetQueueSize_def GetNBytes_def IsL4s_def Let_def
          negative_k_def sample_defs)
  show ?thesis
    by (rule reach_update [OF 1, of 1000000000])
       (simp add: DualPi2Update_def classic_delay_def l4s_delay_def Peek_def GetSeconds_def
          Let_def decoupled_def negative_k_def sample_defs)
qed

text \<open>
  C1, as stated: in every reachable state \<open>0 \<le> p_C \<le> min(1/k\<^sup>2, 1)\<close> and
  \<open>0 \<le> p_CL \<le> 1\<close>. The upper bound on \<open>p_C\<close> fails: under the default coupling factor
  2 the bound is 1/4, and the state \<open>saturated\<close>, reached by three enqueues and one timer
  update, has \<open>base_prob = 1\<close> and so \<open>p_C = 1\<close>. The lower bound on \<open>p_CL\<close> fails
  for a negative coupling factor, which the attribute admits: under \<open>k = -2\<close> the state
  \<open>decoupled\<close>, reached by one enqueue and one timer update, has \<open>p_CL = -2\<close>.
\<close>

theorem pC_exceeds_pCmax:
  "reachable defaults saturated \<and> \<not> m_pC saturated \<le> min (1 / (m_k defaults)\<^sup>2) 1 \<and>
   reachable negative_k decoupled \<and> m_pCL decoupled < 0"
  using reachable_saturated reachable_decoupled
  by (simp add: saturated_def decoupled_def sample_defs)

text \<open>
  C1, amended: in every reachable state \<open>0 \<le> p_C \<le> 1\<close> and \<open>p_CL \<le> 1\<close>;
  \<open>0 \<le> p_CL\<close> when the coupling factor is not negative; and
  \<open>p_C \<le> min(1/k\<^sup>2, 1)\<close> as long as \<open>p_CL < 1\<close> and the coupling factor is positive
  (outside overload).
\<close>

theorem probabilities_bounded:
  assumes "reachable a s"
  shows "0 \<le> m_pC s \<and> m_pC s \<le> 1 \<and> m_pCL s \<le> 1 \<and>
         (0 \<le> m_k a \<longrightarrow> 0 \<le> m_pCL s) \<and>
         (0 < m_k a \<and> m_pCL s < 1 \<longrightarrow> m_pC s \<le> min (1 / (m_k a)\<^sup>2) 1)"
  using reachable_inv [OF assms] by (simp add: aqm_inv_def coupled_inv_def)

text \<open>
  The bounds at work in the state \<open>congested\<close>, where an update has run and
  \<open>base_prob = 243/4000\<close>: \<open>p_CL = 243/2000\<close> is below 1 and \<open>p_C = 59049/16000000\<close>
  is positive and below \<open>p_Cmax = 1/4\<close>.
\<close>

theorem probabilities_bounded_witness:
  "reachable defaults congested \<and> 0 \<le> m_k defaults \<and> 0 < m_k defaults \<and>
   m_baseProb congested = 243 / 4000 \<and> m_pCL congested = 243 / 2000 \<and>
   m_pC congested = 59049 / 16000000 \<and> m_pCL congested < 1 \<and>
   0 \<le> m_pC congested \<and> m_pC congested \<le> 1 \<and> m_pCL congested \<le> 1 \<and>
   0 \<le> m_pCL congested \<and> m_pC congested \<le> min (1 / (m_k defaults)\<^sup>2) 1 \<and>
   min (1 / (m_k defaults)\<^sup>2) 1 = 1 / 4"
  using probabilities_bounded [OF reachable_congested] reachable_congested
  by (simp add: congested_def sample_defs)

subsection \<open>C2: the PI2 update\<close>






subsection \<open>C3: tail drop at the shared limit\<close>





subsection \<open>C4: classification by the ECN bits\<close>

text \<open>
  C4: an item that \<open>DoEnqueue\<close> accepts is appended to the L4S queue if and only if its DS
  field can be read and its two low bits are 01 or 11; every other item, one without a
  readable DS field included, is appended to the Classic queue. The other queue is unchanged.
\<close>

theorem DoEnqueue_classification:
  assumes "DoEnqueue a item s = (True, s')"
  shows "if (\<exists>tos. IP_DSFIELD item = Some tos \<and> (tos AND 3 = 1 \<or> tos AND 3 = 3))
         then l4sQueue s' = l4sQueue s @ [item] \<and> classicQueue s' = classicQueue s
         else classicQueue s' = classicQueue s @ [item] \<and> l4sQueue s' = l4sQueue s"
  using assms
  by (auto simp: DoEnqueue_def IsL4s_def Let_def split: if_splits option.splits)

theorem DoEnqueue_classification_witness:
  "DoEnqueue defaults (ect1_packet 1500) started = (True, started\<lparr>l4sQueue := [ect1_packet 1500]\<rparr>) \<and>
   l4sQueue (started\<lparr>l4sQueue := [ect1_packet 1500]\<rparr>) = l4sQueue started @ [ect1_packet 1500] \<and>
   DoEnqueue defaults (not_ect_packet 1000) started
     = (True, started\<lparr>classicQueue := [not_ect_packet 1000]\<rparr>) \<and>
   classicQueue (started\<lparr>classicQueue := [not_ect_packet 1000]\<rparr>)
     = classicQueue started @ [not_ect_packet 1000]"
proof -
  have 1: "DoEnqueue defaults (ect1_packet 1500) started
             = (True, started\<lparr>l4sQueue := [ect1_packet 1500]\<rparr>)"
    by (simp add: DoEnqueue_def GetQueueSize_def GetNBytes_def IsL4s_def Let_def sample_defs)
  have 2: "DoEnqueue defaults (not_ect_packet 1000) started
             = (True, started\<lparr>classicQueue := [not_ect_packet 1000]\<rparr>)"
    by (simp add: DoEnqueue_def GetQueueSize_def GetNBytes_def IsL4s_def Let_def sample_defs)
  show ?thesis
    using DoEnqueue_classification [OF 1] DoEnqueue_classification [OF 2] 1 2
    by (simp add: sample_defs)
qed

subsection \<open>C5: no AQM drop of L4S packets below overload\<close>

lemma reachable_l4sQueue_IsL4s: "reachable a s \<Longrightarrow> \<forall>p \<in> set (l4sQueue s). IsL4s p"
  using reachable_inv [of a s] by (simp add: aqm_inv_def)

text \<open>
  C5: while \<open>p_CL < p_Lmax\<close>, \<open>DequeueFromL4sQueue\<close> on a queue of L4S items (as the
  queue of every reachable state is) returns the packet it pops, unchanged or CE-marked,
  and records no drop (an empty queue gives nothing). In overload the popped packet is
  dropped, with reason \<open>UNFORCED_L4S_DROP\<close>, exactly when \<open>Recur(count_L, p_C)\<close>
  fires, and the dequeue then goes on with the rest of the queue; when it does not fire
  the packet is not dropped.
\<close>

theorem DequeueFromL4sQueue_regimes:
  "(m_pCL s < m_pLmax s \<and> (\<forall>p \<in> set (l4sQueue s). IsL4s p) \<longrightarrow>
      (case l4sQueue s of
         [] \<Rightarrow> DequeueFromL4sQueue a now s = Inr (None, False, s)
       | p # q \<Rightarrow>
           (\<exists>p' marked s'. DequeueFromL4sQueue a now s = Inr (Some p', marked, s') \<and>
              (p' = p \<and> \<not> marked \<or> p' = snd (Mark_item p) \<and> marked) \<and>
              l4sQueue s' = q \<and> drops s' = drops s)))
   \<and> (\<not> m_pCL s < m_pLmax s \<longrightarrow>
      (case l4sQueue s of
         [] \<Rightarrow> DequeueFromL4sQueue a now s = Inr (None, False, s)
       | p # q \<Rightarrow>
           (if fst (Recur (m_l4sCount s) (m_pC s))
            then DequeueFromL4sQueue a now s =
                   DequeueFromL4sQueue a now
                     (s\<lparr>l4sQueue := q, m_l4sCount := snd (Recur (m_l4sCount s) (m_pC s)),
                        drops := drops s @ [(p, UNFORCED_L4S_DROP)]\<rparr>)
            else DequeueFromL4sQueue a now s = Inl AssertFailed \<or>
                 (\<exists>p' marked s'. DequeueFromL4sQueue a now s = Inr (Some p', marked, s') \<and>
                    (p' = p \<and> \<not> marked \<or> p' = snd (Mark_item p) \<and> marked) \<and>
                    l4sQueue s' = q \<and> drops s' = drops s))))"
proof (intro conjI impI)
  assume h: "m_pCL s < m_pLmax s \<and> (\<forall>p \<in> set (l4sQueue s). IsL4s p)"
  show "case l4sQueue s of
         [] \<Rightarrow> DequeueFromL4sQueue a now s = Inr (None, False, s)
       | p # q \<Rightarrow>
           (\<exists>p' marked s'. DequeueFromL4sQueue a now s = Inr (Some p', marked, s') \<and>
              (p' = p \<and> \<not> marked \<or> p' = snd (Mark_item p) \<and> marked) \<and>
              l4sQueue s' = q \<and> drops s' = drops s)"
  proof (cases "l4sQueue s")
    case Nil
    then show ?thesis
      by (simp add: DequeueFromL4sQueue_def Dequeue_L4S_def)
  next
    case (Cons p q)
    with h have "fst (Mark_item p)"
      by (simp add: Mark_item_L4s)
    with Cons h show ?thesis
      by (auto simp: DequeueFromL4sQueue_def Dequeue_L4S_def Let_def)
  qed
next
  assume h: "\<not> m_pCL s < m_pLmax s"
  show "case l4sQueue s of
         [] \<Rightarrow> DequeueFromL4sQueue a now s = Inr (None, False, s)
       | p # q \<Rightarrow>
           (if fst (Recur (m_l4sCount s) (m_pC s))
            then DequeueFromL4sQueue a now s =
                   DequeueFromL4sQueue a now
                     (s\<lparr>l4sQueue := q, m_l4sCount := snd (Recur (m_l4sCount s) (m_pC s)),
                        drops := drops s @ [(p, UNFORCED_L4S_DROP)]\<rparr>)
            else DequeueFromL4sQueue a now s = Inl AssertFailed \<or>
                 (\<exists>p' marked s'. DequeueFromL4sQueue a now s = Inr (Some p', marked, s') \<and>
                    (p' = p \<and> \<not> marked \<or> p' = snd (Mark_item p) \<and> marked) \<and>
                    l4sQueue s' = q \<and> drops s' = drops s))"
  proof (cases "l4sQueue s")
    case Nil
    then show ?thesis
      by (simp add: DequeueFromL4sQueue_def Dequeue_L4S_def)
  next
    case (Cons p q)
    show ?thesis
    proof (cases "fst (Recur (m_l4sCount s) (m_pC s))")
      case True
      have "DequeueFromL4sQueue a now s = L4sWhile a now (Some p) (s\<lparr>l4sQueue := q\<rparr>)"
        using Cons by (simp add: DequeueFromL4sQueue_def Dequeue_L4S_def)
      also have "\<dots> = DequeueFromL4sQueue a now
                     (s\<lparr>l4sQueue := q, m_l4sCount := snd (Recur (m_l4sCount s) (m_pC s)),
                        drops := drops s @ [(p, UNFORCED_L4S_DROP)]\<rparr>)"
        using h True
        by (subst L4sWhile.simps) (simp add: DequeueFromL4sQueue_def Let_def Drop_def)
      finally show ?thesis
        using Cons True by simp
    next
      case False
      with Cons h show ?thesis
        by (auto simp: DequeueFromL4sQueue_def Dequeue_L4S_def Let_def)
    qed
  qed
qed

theorem DequeueFromL4sQueue_regimes_witness:
  "m_pCL (started\<lparr>l4sQueue := [ect1_packet 1500, ect1_packet 1500]\<rparr>)
     < m_pLmax (started\<lparr>l4sQueue := [ect1_packet 1500, ect1_packet 1500]\<rparr>) \<and>
   l4sQueue (started\<lparr>l4sQueue := [ect1_packet 1500, ect1_packet 1500]\<rparr>)
     = [ect1_packet 1500, ect1_packet 1500] \<and>
   IsL4s (ect1_packet 1500) \<and>
   DequeueFromL4sQueue defaults 0 (started\<lparr>l4sQueue := [ect1_packet 1500, ect1_packet 1500]\<rparr>)
     = Inr (Some (ect1_packet 1500), False, started\<lparr>l4sQueue := [ect1_packet 1500]\<rparr>) \<and>
   \<not> m_pCL (saturated\<lparr>l4sQueue := [ect1_packet 1500], m_l4sCount := 1 / 2\<rparr>)
       < m_pLmax (saturated\<lparr>l4sQueue := [ect1_packet 1500], m_l4sCount := 1 / 2\<rparr>) \<and>
   fst (Recur (1 / 2) 1) \<and>
   DequeueFromL4sQueue defaults 0 (saturated\<lparr>l4sQueue := [ect1_packet 1500], m_l4sCount := 1 / 2\<rparr>)
     = Inr (None, False,
            saturated\<lparr>l4sQueue := [], m_l4sCount := 1 / 2,
              drops := [(ect1_packet 1500, UNFORCED_L4S_DROP)]\<rparr>)"
  using DequeueFromL4sQueue_regimes
      [of "started\<lparr>l4sQueue := [ect1_packet 1500, ect1_packet 1500]\<rparr>" defaults 0]
    DequeueFromL4sQueue_regimes
      [of "saturated\<lparr>l4sQueue := [ect1_packet 1500], m_l4sCount := 1 / 2\<rparr>" defaults 0]
  by (simp add: DequeueFromL4sQueue_def Dequeue_L4S_def GetNPackets_def Recur_def Laqm_def
      IsL4s_def Drop_def Let_def saturated_def sample_defs)

subsection \<open>C6: the two-MTU heuristic of the Classic dequeue\<close>

lemma DequeueFromClassicQueue_first_pop:
  assumes "classicQueue s = p # q" and "GetNBytes q < 2 * m_mtu s"
  shows "DequeueFromClassicQueue s = (Some p, False, s\<lparr>classicQueue := q\<rparr>)"
  using assms by (simp add: DequeueFromClassicQueue_def Dequeue_CLASSIC_def Let_def)

text \<open>
  C6 says that every packet popped by \<open>DequeueFromClassicQueue\<close>, those popped inside
  the drop loop included, is returned without AQM consideration when fewer than
  \<open>2\<cdot>MTU\<close> bytes remain in the queue. The code tests the remaining bytes once, after
  the first pop: that pop is covered by \<open>DequeueFromClassicQueue_first_pop\<close>. In the
  reachable state \<open>saturated\<close> (MTU 1500, three packets of 1500 bytes,
  \<open>p_C \<ge> p_Cmax\<close>) 3000 bytes remain after the first pop, the loop is entered, and it
  drops all three packets: the second with 1500 bytes and the third with no byte remaining.
\<close>

theorem DequeueFromClassicQueue_drops_last_packets:
  "reachable defaults saturated \<and>
   GetNBytes (classicQueue saturated) = 4500 \<and> 2 * m_mtu saturated = 3000 \<and>
   DequeueFromClassicQueue saturated =
     (None, True,
      saturated\<lparr>classicQueue := [], m_classicCount := 1,
        drops := [(not_ect_packet 1500, UNFORCED_CLASSIC_DROP),
                  (not_ect_packet 1500, UNFORCED_CLASSIC_DROP),
                  (not_ect_packet 1500, UNFORCED_CLASSIC_DROP)]\<rparr>)"
  using reachable_saturated
  by (simp add: DequeueFromClassicQueue_def Dequeue_CLASSIC_def GetNBytes_def Recur_def Drop_def
      saturated_def sample_defs Let_def)

subsection \<open>C7: termination of the scheduler loop\<close>

lemma SchedulerLoop_stuck:
  "SchedulerBody a e l c s = (None, s) \<Longrightarrow> SchedulerLoop a e l c i m s = Inl FatalError"
  by (induction a e l c i m s rule: SchedulerLoop.induct) simp

lemma Scheduler_stall:
  assumes "l4sQueue s = pl # ql" and "classicQueue s = pc # qc"
    and "GetSize pl \<noteq> 0" and "m_drrQueues_L4S s" and "m_classicDeficit s < GetSize pc"
    and "GetNPackets_disc s \<noteq> 0"
  shows "Scheduler a (True, False) s = Inl FatalError"
proof -
  let ?t = "s\<lparr>m_drrQueues_CLASSIC := False\<rparr>"
  from assms(5) have nz: "GetSize pc \<noteq> 0" and nle: "\<not> GetSize pc \<le> m_classicDeficit s"
    by (auto simp: word_less_nat_alt word_le_nat_alt)
  have body1: "SchedulerBody a (True, False) (GetSize pl) (GetSize pc) s = (None, ?t)"
    using assms(3,4) nz nle by (simp add: SchedulerBody_def Let_def)
  have body2: "SchedulerBody a (True, False) (GetSize pl) (GetSize pc) ?t = (None, ?t)"
    using assms(3,4) nz nle by (simp add: SchedulerBody_def Let_def)
  have "SchedulerLoop a (True, False) (GetSize pl) (GetSize pc) 0 1000 s
      = SchedulerLoop a (True, False) (GetSize pl) (GetSize pc) 1 1001 ?t"
    by (subst SchedulerLoop.simps) (simp add: body1)
  also have "\<dots> = Inl FatalError"
    by (rule SchedulerLoop_stuck [OF body2])
  finally show ?thesis
    using assms(1,2,6) by (simp add: Scheduler_def Peek_def Let_def)
qed

lemma reachable_stalled: "reachable defaults stalled"
proof -
  let ?l = "ect1_packet 1500" and ?c = "not_ect_packet 1000"
  let ?staged = "stalled\<lparr>m_classicStagingQueue := [?c],
                   m_l4sStagingQueue := [?l\<lparr>IP_DSFIELD := Some 3\<rparr>]\<rparr>"
  have 1: "reachable defaults (started\<lparr>l4sQueue := [?l]\<rparr>)"
    by (rule reach_enqueue [OF reachable_started, of ?l True])
       (simp add: DoEnqueue_def GetQueueSize_def GetNBytes_def IsL4s_def Let_def sample_defs)
  have 2: "reachable defaults (started\<lparr>l4sQueue := [?l, ?l]\<rparr>)"
    by (rule reach_enqueue [OF 1, of ?l True])
       (simp add: DoEnqueue_def GetQueueSize_def GetNBytes_def IsL4s_def Let_def sample_defs)
  have 3: "reachable defaults (started\<lparr>classicQueue := [?c], l4sQueue := [?l, ?l]\<rparr>)"
    by (rule reach_enqueue [OF 2, of ?c True])
       (simp add: DoEnqueue_def GetQueueSize_def GetNBytes_def IsL4s_def Let_def sample_defs)
  have 4: "reachable defaults (started\<lparr>classicQueue := [?c, ?c], l4sQueue := [?l, ?l]\<rparr>)"
    by (rule reach_enqueue [OF 3, of ?c True])
       (simp add: DoEnqueue_def GetQueueSize_def GetNBytes_def IsL4s_def Let_def sample_defs)
  have 5: "reachable defaults ?staged"
    by (rule reach_pending [OF 4, of 0 True 2700])
       (simp add: PendingDequeueCallback_def PendingMarks_def CanSchedule_def Scheduler_def
          SchedulerBody_def add_double_def DequeueFromL4sQueue_def DequeueFromClassicQueue_def
          Dequeue_L4S_def Dequeue_CLASSIC_def AddToL4sStagingQueue_def AddToClassicStagingQueue_def
          GetNBytes_disc_def GetNPackets_disc_def GetNBytes_def GetNPackets_def Peek_def
          RefreshSamples_def Recur_def Laqm_def Mark_item_def Let_def stalled_def sample_defs)
  have 6: "reachable defaults (stalled\<lparr>m_classicStagingQueue := [?c]\<rparr>)"
    by (rule reach_dequeue [OF 5, of 0 "Some (?l\<lparr>IP_DSFIELD := Some 3\<rparr>)"])
       (simp add: DoDequeue_def DequeueFromL4sStagingQueue_def stalled_def sample_defs)
  show ?thesis
    by (rule reach_dequeue [OF 6, of 0 "Some ?c"])
       (simp add: DoDequeue_def DequeueFromL4sStagingQueue_def DequeueFromClassicStagingQueue_def
          stalled_def sample_defs)
qed

text \<open>
  C7 says that a call of \<open>Scheduler\<close> with an eligible class that has a head-of-line
  packet selects a band, and that the fatal error behind the loop is unreachable. The
  loop spins whenever the band that is not eligible stays in the round while the head of
  the eligible band exceeds its deficit: no new round starts, no deficit grows. The body
  also increments \<open>maxIterations\<close>, so the loop ends only when that counter wraps, at
  the fatal error. The state \<open>stalled\<close> is reached under the default attributes by
  four enqueues, a pending-dequeue callback and two dequeues; there the pending-dequeue
  callback with 1100 pending bytes finds only the Classic head eligible and calls the
  scheduler, which ends in the fatal error.
\<close>

theorem Scheduler_spins_to_fatal_error:
  "reachable defaults stalled \<and>
   CanSchedule 1100 stalled = (True, False) \<and>
   Scheduler defaults (True, False) stalled = Inl FatalError \<and>
   PendingDequeueCallback defaults 0 True 1100 stalled = Inl FatalError"
proof (intro conjI)
  show "reachable defaults stalled"
    by (rule reachable_stalled)
  show cs: "CanSchedule 1100 stalled = (True, False)"
    by (simp add: CanSchedule_def GetNPackets_disc_def GetNPackets_def Peek_def stalled_def
        sample_defs Let_def)
  show "Scheduler defaults (True, False) stalled = Inl FatalError"
    by (rule Scheduler_stall [of _ "ect1_packet 1500" "[]" "not_ect_packet 1000" "[]"])
       (simp_all add: GetNPackets_disc_def GetNPackets_def stalled_def sample_defs)
  let ?s1 = "stalled\<lparr>m_cLatencySample := 0, m_lLatencySample := 0, m_cBytesSample := 1000\<rparr>"
  have cs1: "CanSchedule 1100 ?s1 = (True, False)"
    by (simp add: CanSchedule_def GetNPackets_disc_def GetNPackets_def Peek_def stalled_def
        sample_defs Let_def)
  have sch: "Scheduler defaults (True, False) ?s1 = Inl FatalError"
    by (rule Scheduler_stall [of _ "ect1_packet 1500" "[]" "not_ect_packet 1000" "[]"])
       (simp_all add: GetNPackets_disc_def GetNPackets_def stalled_def sample_defs)
  have loop: "PendingLoop defaults 0 0 1100 0 ?s1 = Inl FatalError"
    by (subst PendingLoop.simps) (simp add: cs1 sch Let_def)
  have s1: "RefreshSamples 0 stalled = ?s1"
    by (simp add: RefreshSamples_def Peek_def GetNBytes_def stalled_def sample_defs)
  have pend: "\<not> 1100 > GetNBytes_disc ?s1 + 38 * GetNPackets_disc ?s1"
    by (simp add: GetNBytes_disc_def GetNPackets_disc_def GetNBytes_def GetNPackets_def
        stalled_def sample_defs)
  show "PendingDequeueCallback defaults 0 True 1100 stalled = Inl FatalError"
    unfolding PendingDequeueCallback_def s1 Let_def using pend loop by simp
qed

subsection \<open>C8: the mark top-up of the pending-dequeue callback\<close>

lemma MarkWalk_length: "length (MarkWalk n xs) = length xs"
  by (induction xs arbitrary: n) auto

lemma MarkWalk_nth:
  "i < length xs \<Longrightarrow>
     MarkWalk n xs ! i =
       (if is_ECT1 (xs ! i) \<and> length (filter is_ECT1 (take i xs)) < unat n
        then snd (Mark_item (xs ! i)) else xs ! i)"
proof (induction xs arbitrary: n i)
  case Nil
  then show ?case by simp
next
  case (Cons p ps)
  show ?case
  proof (cases "n = 0")
    case True
    then show ?thesis by simp
  next
    case nz: False
    then have pos: "0 < unat n"
      by (simp add: unat_gt_0)
    have pred: "unat (n - 1) = unat n - 1"
      using nz by (rule unat_minus_one)
    show ?thesis
    proof (cases i)
      case 0
      with nz pos show ?thesis
        by (simp add: is_ECT1_def)
    next
      case (Suc j)
      with Cons.prems have j: "j < length ps" by simp
      show ?thesis
      proof (cases "is_ECT1 p")
        case True
        then have "MarkWalk n (p # ps) ! i = MarkWalk (n - 1) ps ! j"
          using nz Suc by (simp add: is_ECT1_def)
        also have "\<dots> = (if is_ECT1 (ps ! j) \<and> length (filter is_ECT1 (take j ps)) < unat (n - 1)
                          then snd (Mark_item (ps ! j)) else ps ! j)"
          by (rule Cons.IH [OF j])
        finally show ?thesis
          using True Suc pred pos by (auto simp: less_diff_conv)
      next
        case False
        then have "MarkWalk n (p # ps) ! i = MarkWalk n ps ! j"
          using nz Suc by (simp add: is_ECT1_def)
        also have "\<dots> = (if is_ECT1 (ps ! j) \<and> length (filter is_ECT1 (take j ps)) < unat n
                          then snd (Mark_item (ps ! j)) else ps ! j)"
          by (rule Cons.IH [OF j])
        finally show ?thesis
          using False Suc by simp
      qed
    qed
  qed
qed

lemma Mark_item_ECT1:
  "is_ECT1 p \<Longrightarrow> \<exists>tos. IP_DSFIELD p = Some tos \<and> snd (Mark_item p) = p\<lparr>IP_DSFIELD := Some (tos OR 3)\<rparr>"
  by (auto simp: is_ECT1_def Mark_item_def split: option.splits)

lemma PendingMarks_walk:
  "(markedCount \<noteq> 0 \<and> m_pCL s \<le> 0 \<longrightarrow> PendingMarks markedCount s = Inl AssertFailed)
   \<and> (\<not> (markedCount \<noteq> 0 \<and> m_pCL s \<le> 0) \<longrightarrow>
      PendingMarks markedCount s =
        Inr (if markedCount < GetNPackets (l4sQueue s)
             then s\<lparr>m_l4sStagingQueue :=
                    MarkWalk (GetNPackets (l4sQueue s) - markedCount) (m_l4sStagingQueue s)\<rparr>
             else s))"
  by (auto simp: PendingMarks_def Let_def)

lemma reachable_burst: "reachable defaults burst"
proof -
  let ?l = "ect1_packet 1500"
  have 1: "reachable defaults (started\<lparr>l4sQueue := [?l]\<rparr>)"
    by (rule reach_enqueue [OF reachable_started, of ?l True])
       (simp add: DoEnqueue_def GetQueueSize_def GetNBytes_def IsL4s_def Let_def sample_defs)
  have 2: "reachable defaults (started\<lparr>l4sQueue := [?l, ?l]\<rparr>)"
    by (rule reach_enqueue [OF 1, of ?l True])
       (simp add: DoEnqueue_def GetQueueSize_def GetNBytes_def IsL4s_def Let_def sample_defs)
  have 3: "reachable defaults (started\<lparr>l4sQueue := [?l, ?l, ?l]\<rparr>)"
    by (rule reach_enqueue [OF 2, of ?l True])
       (simp add: DoEnqueue_def GetQueueSize_def GetNBytes_def IsL4s_def Let_def sample_defs)
  show ?thesis
    unfolding burst_def
    by (rule reach_enqueue [OF 3, of ?l True])
       (simp add: DoEnqueue_def GetQueueSize_def GetNBytes_def IsL4s_def Let_def sample_defs)
qed

text \<open>
  C8 says that every callback that stages a batch with fewer marks than packets left in
  the L4S queue walks the L4S staging queue and marks ECT(1) packets until the marks
  equal the packets left; the comment before the walk says the same. The walk itself
  does so (\<open>MarkWalk_nth\<close>, \<open>PendingMarks_walk\<close>), but the assertion before it, that
  no packet is marked while \<open>p_CL\<close> is zero, does not hold of the batch loop: LAQM marks
  on the sojourn time alone. In the reachable state \<open>burst\<close> (default attributes, four
  ECT(1) packets of 1500 bytes enqueued at time 0) the callback with 3076 pending bytes at
  2 ms stages two packets and LAQM marks the second, so \<open>markedCount = 1\<close> and two
  packets are left, with \<open>p_CL = 0\<close>: the callback ends at the assertion and the walk,
  which would have marked the first staged packet, does not run.
\<close>

theorem PendingDequeueCallback_asserts_before_top_up:
  "reachable defaults burst \<and>
   PendingLoop defaults 2000000 0 3076 0 (RefreshSamples 2000000 burst) = Inr (1, burst_staged) \<and>
   m_l4sStagingQueue burst_staged
     = [ect1_packet 1500, (ect1_packet 1500)\<lparr>IP_DSFIELD := Some 3\<rparr>] \<and>
   GetNPackets (l4sQueue burst_staged) = 2 \<and>
   m_pCL burst_staged = 0 \<and>
   MarkWalk (GetNPackets (l4sQueue burst_staged) - 1) (m_l4sStagingQueue burst_staged)
     = [(ect1_packet 1500)\<lparr>IP_DSFIELD := Some 3\<rparr>, (ect1_packet 1500)\<lparr>IP_DSFIELD := Some 3\<rparr>] \<and>
   PendingMarks 1 burst_staged = Inl AssertFailed \<and>
   PendingDequeueCallback defaults 2000000 True 3076 burst = Inl AssertFailed"
proof -
  have loop: "PendingLoop defaults 2000000 0 3076 0 (RefreshSamples 2000000 burst)
                = Inr (1, burst_staged)"
    by (simp add: CanSchedule_def Scheduler_def
          SchedulerBody_def add_double_def DequeueFromL4sQueue_def DequeueFromClassicQueue_def
          Dequeue_L4S_def Dequeue_CLASSIC_def AddToL4sStagingQueue_def AddToClassicStagingQueue_def
          GetNBytes_disc_def GetNPackets_disc_def GetNBytes_def GetNPackets_def Peek_def
          RefreshSamples_def Recur_def Laqm_def Mark_item_def Let_def
          burst_def burst_staged_def sample_defs)
  have pend: "\<not> (3076 :: u32) > GetNBytes_disc (RefreshSamples 2000000 burst)
                          + 38 * GetNPackets_disc (RefreshSamples 2000000 burst)"
    by (simp add: GetNBytes_disc_def GetNPackets_disc_def GetNBytes_def GetNPackets_def
          RefreshSamples_def burst_def sample_defs)
  have marks: "PendingMarks 1 burst_staged = Inl AssertFailed"
    by (simp add: PendingMarks_def burst_staged_def sample_defs)
  have callback: "PendingDequeueCallback defaults 2000000 True 3076 burst = Inl AssertFailed"
    unfolding PendingDequeueCallback_def Let_def using pend loop marks by simp
  show ?thesis
    using reachable_burst loop marks callback
    by (simp add: GetNPackets_def Mark_item_def burst_staged_def sample_defs)
qed

subsection \<open>C9: \<open>Recur\<close> with likelihood 0\<close>

text \<open>
  C9, as stated: for every value of the counter, \<open>Recur(count, 0)\<close> returns false and
  leaves the counter unchanged. \<open>Recur\<close> triggers whenever the counter exceeds 1 after
  the addition, so from a counter of 3/2 it returns true and leaves 1/2.
\<close>

theorem Recur_zero_counterexample:
  "Recur (3 / 2) 0 = (True, 1 / 2) \<and> Recur (3 / 2) 0 \<noteq> (False, 3 / 2)"
  by (simp add: Recur_def Let_def)

text \<open>
  C9, amended: \<open>Recur\<close> adds the likelihood to the counter and, if the counter then
  exceeds 1, subtracts 1 and returns true, else returns false; for every counter that is
  at most 1, \<open>Recur(count, 0)\<close> returns false and leaves the counter unchanged.
\<close>

theorem Recur_zero:
  "Recur count likelihood =
     (if count + likelihood > 1 then (True, count + likelihood - 1)
      else (False, count + likelihood))
   \<and> (count \<le> 1 \<longrightarrow> Recur count 0 = (False, count))"
  by (simp add: Recur_def Let_def)

theorem Recur_zero_witness:
  "(1 / 2 :: real) \<le> 1 \<and> Recur (1 / 2) 0 = (False, 1 / 2)"
  using Recur_zero [of "1 / 2" 0] by simp

subsection \<open>C10: the \<open>Recur\<close> counters stay in the unit interval\<close>

text \<open>
  C10: \<open>Recur\<close> maps a counter in \<open>[0,1]\<close> and a likelihood in \<open>[0,1]\<close> to a counter
  in \<open>[0,1]\<close>, and in every reachable state, so across every enqueue, dequeue,
  pending-dequeue callback and timer update, both counters are in \<open>[0,1]\<close>.
\<close>

theorem Recur_counters_unit:
  "(0 \<le> count \<and> count \<le> 1 \<and> 0 \<le> likelihood \<and> likelihood \<le> 1 \<longrightarrow>
      0 \<le> snd (Recur count likelihood) \<and> snd (Recur count likelihood) \<le> 1)
   \<and> (reachable a s \<longrightarrow>
        0 \<le> m_classicCount s \<and> m_classicCount s \<le> 1 \<and> 0 \<le> m_l4sCount s \<and> m_l4sCount s \<le> 1)"
proof (intro conjI impI)
  assume "0 \<le> count \<and> count \<le> 1 \<and> 0 \<le> likelihood \<and> likelihood \<le> 1"
  then show "0 \<le> snd (Recur count likelihood)" "snd (Recur count likelihood) \<le> 1"
    using Recur_unit [of count likelihood] by simp_all
next
  assume "reachable a s"
  from reachable_inv [OF this]
  show "0 \<le> m_classicCount s" "m_classicCount s \<le> 1" "0 \<le> m_l4sCount s" "m_l4sCount s \<le> 1"
    by (simp_all add: aqm_inv_def)
qed

theorem Recur_counters_unit_witness:
  "(0 :: real) \<le> 1 / 2 \<and> (1 / 2 :: real) \<le> 1 \<and> reachable defaults saturated \<and>
   0 \<le> snd (Recur (1 / 2) (1 / 2)) \<and> snd (Recur (1 / 2) (1 / 2)) \<le> 1 \<and>
   0 \<le> m_classicCount saturated \<and> m_classicCount saturated \<le> 1 \<and>
   0 \<le> m_l4sCount saturated \<and> m_l4sCount saturated \<le> 1"
  using Recur_counters_unit [of "1 / 2" "1 / 2" defaults saturated] reachable_saturated
  by simp

end
